theory Spec2Isabelle
  imports Main "HOL-Library.Multiset"
begin

section \<open>Values, column types and dataframes\<close>

text \<open>
  The notebook is a sequence of PySpark dataframe calls (Spark 3.2.0, as its first cell
  prints). A dataframe is a schema, a list of named and typed columns in which a name may
  occur more than once (after a join), and a list of rows, each a list of cells aligned
  with the schema. The order of the rows is one representative of Spark's bag of rows.
\<close>

datatype dtype = LongType | DoubleType | StringType | BooleanType | TimestampType

datatype val = Null | NaN | Num int | Str string | Bool bool | Ts int

record dataframe =
  schema :: "(string \<times> dtype) list"
  rows :: "val list list"

datatype error =
    CannotResolve string
  | AmbiguousReference string
  | DuplicateColumns
  | PathExists
  | FileExistsError
  | FileNotFoundError
  | NotADirectoryError
  | PermissionError

definition bindE :: "error + 'a \<Rightarrow> ('a \<Rightarrow> error + 'b) \<Rightarrow> error + 'b" where
  "bindE m f = (case m of Inl e \<Rightarrow> Inl e | Inr x \<Rightarrow> f x)"

definition columns :: "dataframe \<Rightarrow> string list" where
  "columns df = map fst (schema df)"

definition wf_df :: "dataframe \<Rightarrow> bool" where
  "wf_df df = list_all (\<lambda>r. length r = length (schema df)) (rows df)"

subsection \<open>Column names\<close>

text \<open>
  Spark resolves a column name with the session's resolver. The notebook leaves
  \<^verbatim>\<open>spark.sql.caseSensitive\<close> at its default, so names are compared ignoring case
  (Java's \<^verbatim>\<open>equalsIgnoreCase\<close>, here on ASCII names). Python's own
  \<^verbatim>\<open>in\<close> / \<^verbatim>\<open>not in\<close> on lists of names compares exactly.
\<close>

definition upper_char :: "char \<Rightarrow> char" where
  "upper_char c =
     (case map_of (zip ''abcdefghijklmnopqrstuvwxyz'' ''ABCDEFGHIJKLMNOPQRSTUVWXYZ'') c of
        Some u \<Rightarrow> u
      | None \<Rightarrow> c)"

definition fold_case :: "string \<Rightarrow> string" where
  "fold_case s = map upper_char s"

definition resolver :: "string \<Rightarrow> string \<Rightarrow> bool" where
  "resolver a b = (fold_case a = fold_case b)"

text \<open>\<^verbatim>\<open>df[name]\<close>: the position of the one column the name resolves to.\<close>

definition col :: "dataframe \<Rightarrow> string \<Rightarrow> error + nat" where
  "col df name =
     (case [i \<leftarrow> [0..<length (schema df)]. resolver (fst (schema df ! i)) name] of
        [] \<Rightarrow> Inl (CannotResolve name)
      | [i] \<Rightarrow> Inr i
      | _ \<Rightarrow> Inl (AmbiguousReference name))"

fun cols :: "dataframe \<Rightarrow> string list \<Rightarrow> error + nat list" where
  "cols df [] = Inr []"
| "cols df (n # ns) = bindE (col df n) (\<lambda>i. bindE (cols df ns) (\<lambda>js. Inr (i # js)))"

subsection \<open>The dataframe operations the notebook calls\<close>

definition cell :: "val list \<Rightarrow> nat \<Rightarrow> val" where
  "cell r i = (if i < length r then r ! i else Null)"

text \<open>
  \<^verbatim>\<open>a == b\<close> in a join condition is SQL equality: it holds only between two
  values that are not null. The two columns of each join condition of the notebook hold
  values of one type (airport names, time stamps). Spark casts operands of different types
  to a common type before it compares them; this cast is not modelled, so what is said
  below about the rows that match is said for key columns of the same type on both sides.
\<close>

definition sql_eq :: "val \<Rightarrow> val \<Rightarrow> bool" where
  "sql_eq a b = (a \<noteq> Null \<and> b \<noteq> Null \<and> a = b)"

definition matches :: "(nat \<times> nat) list \<Rightarrow> val list \<Rightarrow> val list \<Rightarrow> bool" where
  "matches on lr rr = list_all (\<lambda>(i, j). sql_eq (cell lr i) (cell rr j)) on"

text \<open>
  \<^verbatim>\<open>l.join(r, (l[a] == r[b]) & (l[c] == r[d]), 'left')\<close> with the four
  columns already resolved to positions: every left row is paired with each right row
  that matches it, and with nulls when none does. Spark gives the rows of a join in no
  fixed order. The list below has them in one order, left row by left row; what is proved
  about the rows of a merged table is about them as a multiset, or about a row and the
  output row made from it.
\<close>

definition join_row :: "(nat \<times> nat) list \<Rightarrow> dataframe \<Rightarrow> val list \<Rightarrow> val list list" where
  "join_row on r lr =
     (case filter (matches on lr) (rows r) of
        [] \<Rightarrow> [lr @ replicate (length (schema r)) Null]
      | ms \<Rightarrow> map (\<lambda>rr. lr @ rr) ms)"

definition join_left :: "dataframe \<Rightarrow> dataframe \<Rightarrow> (nat \<times> nat) list \<Rightarrow> dataframe" where
  "join_left l r on =
     \<lparr>schema = schema l @ schema r, rows = concat (map (join_row on r) (rows l))\<rparr>"

definition select_mask :: "bool list \<Rightarrow> 'a list \<Rightarrow> 'a list" where
  "select_mask keep xs = map snd (filter fst (zip keep xs))"

text \<open>
  \<^verbatim>\<open>df.drop(*names)\<close> removes every column whose name resolves to one of the
  names, and is silent about a name that no column has.
\<close>

definition drop_cols :: "dataframe \<Rightarrow> string list \<Rightarrow> dataframe" where
  "drop_cols df names =
     (let keep = map (\<lambda>(n, t). \<not> list_ex (resolver n) names) (schema df)
      in \<lparr>schema = select_mask keep (schema df),
          rows = map (select_mask keep) (rows df)\<rparr>)"

text \<open>\<^verbatim>\<open>df.withColumnRenamed(existing, new)\<close> renames every column that resolves to
  \<^verbatim>\<open>existing\<close>.\<close>

definition withColumnRenamed :: "dataframe \<Rightarrow> string \<Rightarrow> string \<Rightarrow> dataframe" where
  "withColumnRenamed df existing new =
     df\<lparr>schema := map (\<lambda>(n, t). if resolver n existing then (new, t) else (n, t)) (schema df)\<rparr>"

definition is_numeric :: "dtype \<Rightarrow> bool" where
  "is_numeric t = (t = LongType \<or> t = DoubleType)"

definition fill_zero :: "dtype \<Rightarrow> val \<Rightarrow> val" where
  "fill_zero t v = (if v = Null \<or> (t = DoubleType \<and> v = NaN) then Num 0 else v)"

text \<open>
  \<^verbatim>\<open>df.fillna(0, subset=names)\<close>: every name of the subset is resolved (a missing or
  an ambiguous name raises), and of the resolved columns those of a numeric type get 0
  for null (and for NaN in a floating-point column); a column of another type is ignored.
\<close>

definition fillna :: "dataframe \<Rightarrow> string list \<Rightarrow> error + dataframe" where
  "fillna df subset_names =
     bindE (cols df subset_names) (\<lambda>attrs.
       Inr (df\<lparr>rows := map (\<lambda>r. map (\<lambda>i.
              if i \<in> set attrs \<and> i < length (schema df) \<and> is_numeric (snd (schema df ! i))
              then fill_zero (snd (schema df ! i)) (r ! i) else r ! i) [0..<length r])
            (rows df)\<rparr>))"

section \<open>The notebook\<close>

subsection \<open>Loading the staging tables\<close>

definition drop_meta_cols :: "string list" where
  "drop_meta_cols = [''__null_dask_index__'', ''__index_level_0__'']"

definition load_attr :: "dataframe \<Rightarrow> dataframe" where
  "load_attr staged = drop_cols staged (drop_meta_cols @ [''YEAR''])"

definition load_flights :: "dataframe \<Rightarrow> dataframe" where
  "load_flights staged = drop_cols staged drop_meta_cols"

subsection \<open>Merging\<close>

definition add_col_prefix :: "dataframe \<Rightarrow> string list \<Rightarrow> string \<Rightarrow> string list \<Rightarrow> dataframe" where
  "add_col_prefix df update_col_names prefix ignore_cols =
     (let cols_with_prefix = [cc \<leftarrow> update_col_names. cc \<notin> set ignore_cols];
          col_rename_map = zip cols_with_prefix (map (\<lambda>cc. prefix @ cc) cols_with_prefix)
      in foldl (\<lambda>df cc. withColumnRenamed df (fst cc) (snd cc)) df col_rename_map)"

text \<open>
  One of the four merges: the left join of the flight table built so far with an
  attribute table on (airport, time bucket), the drop of the attribute table's two key
  columns, and the prefixing of the attribute table's other column names.
\<close>

definition merge_step ::
  "dataframe \<Rightarrow> dataframe \<Rightarrow> string \<Rightarrow> string \<Rightarrow> string \<Rightarrow> string \<Rightarrow> string \<Rightarrow> error + dataframe" where
  "merge_step mg attr arpt_col bucket_col arpt_key bucket_key prefix =
     bindE (col mg arpt_col) (\<lambda>a.
     bindE (col attr arpt_key) (\<lambda>b.
     bindE (col mg bucket_col) (\<lambda>c.
     bindE (col attr bucket_key) (\<lambda>d.
       Inr (add_col_prefix
              (drop_cols (join_left mg attr [(a, b), (c, d)]) [arpt_key, bucket_key])
              (columns attr) prefix [arpt_key, bucket_key])))))"

definition merge_tables :: "dataframe \<Rightarrow> dataframe \<Rightarrow> dataframe \<Rightarrow> error + dataframe" where
  "merge_tables nas_flights arpt_demand arpt_weather =
     bindE (merge_step nas_flights arpt_demand
              ''ORIGIN'' ''DEP_TIME_DT_LOCAL_QTHR'' ''ARPT_NAME'' ''DT_LOCAL_QTHR'' ''ORIGIN_'') (\<lambda>mg1.
     bindE (merge_step mg1 arpt_demand
              ''DEST'' ''ARR_TIME_DT_LOCAL_QTHR'' ''ARPT_NAME'' ''DT_LOCAL_QTHR'' ''DEST_'') (\<lambda>mg2.
     bindE (merge_step mg2 arpt_weather
              ''ORIGIN'' ''DEP_TIME_DT_LOCAL_HR'' ''ARPT_NAME'' ''DT_LOCAL_HR'' ''ORIGIN_'') (\<lambda>mg3.
     merge_step mg3 arpt_weather
              ''DEST'' ''ARR_TIME_DT_LOCAL_HR'' ''ARPT_NAME'' ''DT_LOCAL_HR'' ''DEST_'')))"

subsection \<open>Cleaning the columns\<close>

definition with_prefixes :: "string list \<Rightarrow> string list \<Rightarrow> string list" where
  "with_prefixes prefixes names = concat (map (\<lambda>pfix. map (\<lambda>cc. pfix @ cc) names) prefixes)"

definition arpt_demand_attr_cols :: "dataframe \<Rightarrow> string list" where
  "arpt_demand_attr_cols arpt_demand =
     with_prefixes [''ORIGIN_'', ''DEST_'']
       [cc \<leftarrow> columns arpt_demand. cc \<notin> set [''YEAR'', ''ARPT_NAME'', ''DT_LOCAL_QTHR'']]"

definition od_remove_cols :: "string list" where
  "od_remove_cols = with_prefixes [''ORIGIN_'', ''DEST_''] [''DT_LOCAL_QTHR'', ''DT_LOCAL_HR'']"

definition ad_remove_cols :: "string list" where
  "ad_remove_cols =
     with_prefixes [''ARR_'', ''DEP_'']
       [''TIME_DT_LOCAL'', ''TIME_DT_LOCAL_DAY'', ''TIME_DT_LOCAL_HR'', ''TIME_DT_LOCAL_QTHR'']"

definition clean_columns :: "dataframe \<Rightarrow> dataframe \<Rightarrow> error + dataframe" where
  "clean_columns mg arpt_demand =
     bindE (fillna mg (arpt_demand_attr_cols arpt_demand)) (\<lambda>filled.
       Inr (drop_cols filled (ad_remove_cols @ od_remove_cols)))"

text \<open>The three staged tables to the table the writer is given.\<close>

definition etl :: "dataframe \<Rightarrow> dataframe \<Rightarrow> dataframe \<Rightarrow> error + dataframe" where
  "etl staged_flights staged_demand staged_weather =
     (let arpt_demand = load_attr staged_demand;
          arpt_weather = load_attr staged_weather;
          nas_flights = load_flights staged_flights
      in bindE (merge_tables nas_flights arpt_demand arpt_weather) (\<lambda>mg.
           clean_columns mg arpt_demand))"

section \<open>The output directory\<close>

text \<open>
  The first cell prepares the output directory with three calls of the operating system.
  The file system below the working directory is a tree. Every entry carries whether the
  process may remove it: \<^verbatim>\<open>unlink\<close> or \<^verbatim>\<open>rmdir\<close> on an entry
  that it may not remove raises PermissionError. A directory lists its entries in the order
  in which \<^verbatim>\<open>os.scandir\<close> yields them. Creating a directory is always allowed.
\<close>

datatype node = File bool | Dir bool "(string \<times> node) list"

type_synonym path = "string list"

definition etl_output_dir :: path where
  "etl_output_dir = [''data'', ''encoded'', ''NAS'']"

fun lookup :: "node \<Rightarrow> path \<Rightarrow> node option" where
  "lookup n [] = Some n"
| "lookup (File r) (c # cs) = None"
| "lookup (Dir r es) (c # cs) = (case map_of es c of None \<Rightarrow> None | Some x \<Rightarrow> lookup x cs)"

definition isdir :: "node \<Rightarrow> path \<Rightarrow> bool" where
  "isdir fs p = (case lookup fs p of Some (Dir r es) \<Rightarrow> True | _ \<Rightarrow> False)"

definition set_entry :: "string \<Rightarrow> node \<Rightarrow> (string \<times> node) list \<Rightarrow> (string \<times> node) list" where
  "set_entry c x es = map (\<lambda>e. if fst e = c then (c, x) else e) es"

text \<open>\<^verbatim>\<open>os.mkdir(path)\<close>\<close>

fun mkdir :: "node \<Rightarrow> path \<Rightarrow> error + node" where
  "mkdir n [] = Inl FileExistsError"
| "mkdir (File r) (c # cs) = Inl NotADirectoryError"
| "mkdir (Dir r es) [c] =
     (if map_of es c \<noteq> None then Inl FileExistsError
      else Inr (Dir r (es @ [(c, Dir True [])])))"
| "mkdir (Dir r es) (c # c' # cs) =
     (case map_of es c of
        None \<Rightarrow> Inl FileNotFoundError
      | Some x \<Rightarrow> bindE (mkdir x (c' # cs)) (\<lambda>x'. Inr (Dir r (set_entry c x' es))))"

text \<open>
  \<^verbatim>\<open>os.makedirs(name, exist_ok=True)\<close>: the missing parents first; then the directory
  itself, where an error of \<^verbatim>\<open>mkdir\<close> is dropped if the path is a directory.
\<close>

function makedirs :: "node \<Rightarrow> path \<Rightarrow> error + node" where
  "makedirs fs p =
     (if p = [] then Inr fs
      else bindE (if butlast p \<noteq> [] \<and> lookup fs (butlast p) = None
                  then (case makedirs fs (butlast p) of
                          Inl FileExistsError \<Rightarrow> Inr fs
                        | r \<Rightarrow> r)
                  else Inr fs)
             (\<lambda>fs1. case mkdir fs1 p of
                      Inr fs2 \<Rightarrow> Inr fs2
                    | Inl e \<Rightarrow> if isdir fs1 p then Inr fs1 else Inl e))"
  by pat_completeness auto
termination
  by (relation "measure (\<lambda>(fs, p). length p)") auto

text \<open>
  \<^verbatim>\<open>shutil.rmtree(path)\<close> removes the entries of a directory one after the other,
  directories recursively, and the directory last. The first entry that cannot be removed
  raises, and what was not reached stays. \<open>rm_node\<close> gives what is left of an entry
  (nothing when it is gone), \<open>rm_entries\<close> the entries left in a directory.
\<close>

fun rm_node :: "node \<Rightarrow> node option" and rm_entries :: "(string \<times> node) list \<Rightarrow> (string \<times> node) list" where
  "rm_node (File r) = (if r then None else Some (File r))"
| "rm_node (Dir r es) =
     (case rm_entries es of
        [] \<Rightarrow> if r then None else Some (Dir r [])
      | left \<Rightarrow> Some (Dir r left))"
| "rm_entries [] = []"
| "rm_entries (e # es) =
     (case rm_node (snd e) of
        None \<Rightarrow> rm_entries es
      | Some x \<Rightarrow> (fst e, x) # es)"

fun put :: "node \<Rightarrow> path \<Rightarrow> node option \<Rightarrow> node" where
  "put n [] v = (case v of None \<Rightarrow> n | Some x \<Rightarrow> x)"
| "put (File r) (c # cs) v = File r"
| "put (Dir r es) [c] v =
     (case v of
        None \<Rightarrow> Dir r (filter (\<lambda>e. fst e \<noteq> c) es)
      | Some x \<Rightarrow> Dir r (set_entry c x es))"
| "put (Dir r es) (c # c' # cs) v =
     (case map_of es c of
        None \<Rightarrow> Dir r es
      | Some y \<Rightarrow> Dir r (set_entry c (put y (c' # cs) v) es))"

definition rmtree :: "node \<Rightarrow> path \<Rightarrow> node \<times> error option" where
  "rmtree fs p =
     (case lookup fs p of
        None \<Rightarrow> (fs, Some FileNotFoundError)
      | Some (File r) \<Rightarrow> (fs, Some NotADirectoryError)
      | Some (Dir r es) \<Rightarrow>
          (case rm_node (Dir r es) of
             None \<Rightarrow> (put fs p None, None)
           | Some left \<Rightarrow> (put fs p (Some left), Some PermissionError)))"

text \<open>
  The cell: \<^verbatim>\<open>os.makedirs(etl_output_dir, exist_ok=True)\<close>, then
  \<^verbatim>\<open>shutil.rmtree(etl_output_dir)\<close> with every exception dropped, then
  \<^verbatim>\<open>os.mkdir(etl_output_dir)\<close>.
\<close>

definition prepare_output_dir :: "node \<Rightarrow> error + node" where
  "prepare_output_dir fs =
     bindE (makedirs fs etl_output_dir) (\<lambda>fs1.
       mkdir (fst (rmtree fs1 etl_output_dir)) etl_output_dir)"

section \<open>The writer\<close>

text \<open>
  \<^verbatim>\<open>nas_flights_mg.coalesce(4).write.mode('overwrite').partitionBy('YYYYMM').parquet(etl_output_dir)\<close>.
  Spark holds the rows of a table in partitions and writes each partition in a task of its
  own. A task writes one file for each value of the partition column among its rows, into
  the directory \<^verbatim>\<open>YYYYMM=value\<close>, and leaves the partition column out of the
  file, since the directory name holds it.
\<close>

record part_file =
  partition_value :: val
  task :: nat
  file_rows :: "val list list"

datatype save_mode = Append | Overwrite | ErrorIfExists | Ignore

text \<open>
  \<^verbatim>\<open>coalesce(n)\<close> leaves at most \<open>n\<close> partitions: fewer partitions stay as
  they are, more are grouped by position, the group \<open>i\<close> taking the partitions from
  \<open>i * length / n\<close> up to \<open>(i + 1) * length / n\<close>. Spark picks the members of a
  group by the locality of the partitions; the grouping by position stands for it, and
  what is proved of the writer uses only that there are at most \<open>n\<close> groups, which hold
  the rows of the partitions.
\<close>

definition coalesce :: "nat \<Rightarrow> 'a list list \<Rightarrow> 'a list list" where
  "coalesce n parts =
     (if length parts \<le> n then parts
      else map (\<lambda>i. concat (take ((i + 1) * length parts div n - i * length parts div n)
                               (drop (i * length parts div n) parts))) [0..<n])"

definition remove_at :: "nat \<Rightarrow> 'a list \<Rightarrow> 'a list" where
  "remove_at k r = take k r @ drop (Suc k) r"

definition insert_at :: "nat \<Rightarrow> 'a \<Rightarrow> 'a list \<Rightarrow> 'a list" where
  "insert_at k v r = take k r @ v # drop k r"

definition write_task :: "nat \<Rightarrow> nat \<Rightarrow> val list list \<Rightarrow> part_file list" where
  "write_task k t task_rows =
     map (\<lambda>v. \<lparr>partition_value = v, task = t,
                file_rows = map (remove_at k) [r \<leftarrow> task_rows. cell r k = v]\<rparr>)
       (remdups (map (\<lambda>r. cell r k) task_rows))"

text \<open>
  The write raises when the partition column does not resolve or when two columns have
  the same name. The directory exists (the first cell made it): mode overwrite deletes
  what it holds and writes the new files, append adds them, the others do not write.
\<close>

definition write_parquet ::
  "save_mode \<Rightarrow> string \<Rightarrow> part_file list \<Rightarrow> dataframe \<Rightarrow> val list list list
     \<Rightarrow> error + part_file list" where
  "write_parquet mode partition_col existing df partitions =
     bindE (col df partition_col) (\<lambda>k.
       if \<not> distinct (map fold_case (columns df)) then Inl DuplicateColumns
       else
         let new_files = concat (map (\<lambda>tp. write_task k (fst tp) (snd tp)) (enumerate 0 partitions))
         in case mode of
              Overwrite \<Rightarrow> Inr new_files
            | Append \<Rightarrow> Inr (existing @ new_files)
            | ErrorIfExists \<Rightarrow> Inl PathExists
            | Ignore \<Rightarrow> Inr existing)"

definition writer :: "part_file list \<Rightarrow> dataframe \<Rightarrow> val list list list \<Rightarrow> error + part_file list" where
  "writer existing nas_flights_mg partitions =
     write_parquet Overwrite ''YYYYMM'' existing nas_flights_mg (coalesce 4 partitions)"

section \<open>Basic facts about the dataframe operations\<close>

lemma bindE_Inr: "bindE (Inr x) f = f x" by (simp add: bindE_def)
lemma bindE_Inl: "bindE (Inl e) f = Inl e" by (simp add: bindE_def)
lemma bindE_weak_cong: "m = m' \<Longrightarrow> bindE m f = bindE m' f" by simp

lemma bindE_eq_Inr: "bindE m f = Inr y \<longleftrightarrow> (\<exists>x. m = Inr x \<and> f x = Inr y)"
  by (cases m) (simp_all add: bindE_def)


lemma select_mask_map_same: "select_mask (map P xs) xs = filter P xs"
  by (induction xs) (simp_all add: select_mask_def)

lemma schema_drop_cols:
  "schema (drop_cols df ns) = [c \<leftarrow> schema df. \<not> list_ex (resolver (fst c)) ns]"
  by (simp add: drop_cols_def Let_def case_prod_unfold select_mask_map_same)


lemma columns_drop_cols:
  "columns (drop_cols df ns) = [n \<leftarrow> columns df. \<not> list_ex (resolver n) ns]"
  by (simp add: columns_def schema_drop_cols filter_map comp_def)

lemma resolver_refl: "resolver a a" by (simp add: resolver_def)
lemma resolver_sym: "resolver a b \<longleftrightarrow> resolver b a" by (auto simp: resolver_def)
lemma resolver_trans: "resolver a b \<Longrightarrow> resolver b c \<Longrightarrow> resolver a c" by (simp add: resolver_def)

lemma fold_case_append: "fold_case (p @ c) = fold_case p @ fold_case c"
  by (simp add: fold_case_def)

lemma resolver_prefix: "resolver (p @ a) (p @ b) \<longleftrightarrow> resolver a b"
  by (simp add: resolver_def fold_case_append)

lemma schema_join_left: "schema (join_left l r on) = schema l @ schema r"
  by (simp add: join_left_def)

lemma schema_withColumnRenamed:
  "schema (withColumnRenamed df a b) =
     map (\<lambda>c. if resolver (fst c) a then (b, snd c) else c) (schema df)"
  by (simp add: withColumnRenamed_def case_prod_unfold)

lemma rows_withColumnRenamed: "rows (withColumnRenamed df a b) = rows df"
  by (simp add: withColumnRenamed_def)

lemma rows_foldl_rename:
  "rows (foldl (\<lambda>df cc. withColumnRenamed df (fst cc) (snd cc)) df ps) = rows df"
  by (induction ps arbitrary: df) (simp_all add: rows_withColumnRenamed)

lemma rows_add_col_prefix: "rows (add_col_prefix df u p ign) = rows df"
  by (simp add: add_col_prefix_def Let_def rows_foldl_rename)

lemma length_schema_foldl_rename:
  "length (schema (foldl (\<lambda>df cc. withColumnRenamed df (fst cc) (snd cc)) df ps)) = length (schema df)"
  by (induction ps arbitrary: df) (simp_all add: schema_withColumnRenamed)

lemma length_schema_add_col_prefix: "length (schema (add_col_prefix df u p ign)) = length (schema df)"
  by (simp add: add_col_prefix_def Let_def length_schema_foldl_rename)

lemma map_snd_schema_foldl_rename:
  "map snd (schema (foldl (\<lambda>df cc. withColumnRenamed df (fst cc) (snd cc)) df ps)) = map snd (schema df)"
  by (induction ps arbitrary: df) (simp_all add: schema_withColumnRenamed comp_def)

lemma schema_fillna: "fillna df ns = Inr out \<Longrightarrow> schema out = schema df"
  by (auto simp: fillna_def bindE_eq_Inr)

lemma merge_step_Inr:
  assumes "merge_step mg attr ac bc ak bk p = Inr out"
  obtains a b c d where "col mg ac = Inr a" "col attr ak = Inr b" "col mg bc = Inr c"
    "col attr bk = Inr d"
    "out = add_col_prefix (drop_cols (join_left mg attr [(a, b), (c, d)]) [ak, bk])
             (columns attr) p [ak, bk]"
  using assms unfolding merge_step_def bindE_eq_Inr by auto

lemma merge_tables_Inr:
  assumes "merge_tables f d w = Inr mg"
  obtains mg1 mg2 mg3 where
    "merge_step f d ''ORIGIN'' ''DEP_TIME_DT_LOCAL_QTHR'' ''ARPT_NAME'' ''DT_LOCAL_QTHR'' ''ORIGIN_'' = Inr mg1"
    "merge_step mg1 d ''DEST'' ''ARR_TIME_DT_LOCAL_QTHR'' ''ARPT_NAME'' ''DT_LOCAL_QTHR'' ''DEST_'' = Inr mg2"
    "merge_step mg2 w ''ORIGIN'' ''DEP_TIME_DT_LOCAL_HR'' ''ARPT_NAME'' ''DT_LOCAL_HR'' ''ORIGIN_'' = Inr mg3"
    "merge_step mg3 w ''DEST'' ''ARR_TIME_DT_LOCAL_HR'' ''ARPT_NAME'' ''DT_LOCAL_HR'' ''DEST_'' = Inr mg"
  using assms unfolding merge_tables_def bindE_eq_Inr by auto

lemma clean_columns_Inr:
  assumes "clean_columns mg d = Inr out"
  obtains filled where "fillna mg (arpt_demand_attr_cols d) = Inr filled"
    "out = drop_cols filled (ad_remove_cols @ od_remove_cols)"
  using assms unfolding clean_columns_def bindE_eq_Inr by auto

lemma etl_Inr:
  assumes "etl f d w = Inr out"
  obtains mg where "merge_tables (load_flights f) (load_attr d) (load_attr w) = Inr mg"
    "clean_columns mg (load_attr d) = Inr out"
  using assms unfolding etl_def Let_def bindE_eq_Inr by auto

text \<open>A column that no rename of the pass touches keeps its name and type.\<close>

lemma in_schema_foldl_rename:
  "ct \<in> set (schema df) \<Longrightarrow> \<forall>cc \<in> set ps. \<not> resolver (fst ct) (fst cc) \<Longrightarrow>
     ct \<in> set (schema (foldl (\<lambda>df cc. withColumnRenamed df (fst cc) (snd cc)) df ps))"
proof (induction ps arbitrary: df)
  case Nil
  then show ?case by simp
next
  case (Cons cc ps)
  have "ct \<in> set (schema (withColumnRenamed df (fst cc) (snd cc)))"
    using Cons.prems by (force simp: schema_withColumnRenamed)
  with Cons show ?case by simp
qed

lemma in_schema_add_col_prefix:
  assumes "ct \<in> set (schema df)" "\<forall>x \<in> set u. \<not> resolver (fst ct) x"
  shows "ct \<in> set (schema (add_col_prefix df u p ign))"
  unfolding add_col_prefix_def Let_def
  by (rule in_schema_foldl_rename [OF assms(1)]) (use assms(2) in \<open>auto dest!: set_zip_leftD\<close>)

lemma in_schema_merge_step:
  assumes "merge_step mg attr ac bc ak bk p = Inr out" "ct \<in> set (schema mg)"
    "\<not> resolver (fst ct) ak" "\<not> resolver (fst ct) bk" "\<forall>x \<in> set (columns attr). \<not> resolver (fst ct) x"
  shows "ct \<in> set (schema out)"
proof -
  from assms(1) obtain a b c d where
    out: "out = add_col_prefix (drop_cols (join_left mg attr [(a, b), (c, d)]) [ak, bk])
             (columns attr) p [ak, bk]"
    by (rule merge_step_Inr)
  have "ct \<in> set (schema (drop_cols (join_left mg attr [(a, b), (c, d)]) [ak, bk]))"
    using assms(2,3,4) by (simp add: schema_drop_cols schema_join_left)
  then show ?thesis unfolding out using assms(5) by (rule in_schema_add_col_prefix)
qed

text \<open>The name a column called \<open>n\<close> has after the renames of one pass, taken in order.\<close>

definition renamed :: "string \<Rightarrow> string list \<Rightarrow> string \<Rightarrow> string" where
  "renamed prefix cols_with_prefix n =
     foldl (\<lambda>n cc. if resolver n cc then prefix @ cc else n) n cols_with_prefix"

lemma renamed_Nil: "renamed p [] n = n"
  by (simp add: renamed_def)

lemma renamed_Cons: "renamed p (c # cs) n = renamed p cs (if resolver n c then p @ c else n)"
  by (simp add: renamed_def)

lemma schema_foldl_rename:
  "schema (foldl (\<lambda>df cc. withColumnRenamed df (fst cc) (snd cc)) df (zip cs (map (\<lambda>cc. p @ cc) cs))) =
     map (\<lambda>c. (renamed p cs (fst c), snd c)) (schema df)"
proof (induction cs arbitrary: df)
  case Nil
  then show ?case by (simp add: renamed_Nil)
next
  case (Cons c cs)
  show ?case
    by (simp add: Cons.IH schema_withColumnRenamed renamed_Cons comp_def)
qed

lemma schema_add_col_prefix:
  "schema (add_col_prefix df u p ign) =
     map (\<lambda>c. (renamed p [cc \<leftarrow> u. cc \<notin> set ign] (fst c), snd c)) (schema df)"
  by (simp add: add_col_prefix_def Let_def schema_foldl_rename)

lemma renamed_other: "\<forall>c \<in> set cs. \<not> resolver n c \<Longrightarrow> renamed p cs n = n"
  by (induction cs) (simp_all add: renamed_Nil renamed_Cons)

lemma renamed_has_prefix:
  "\<exists>c \<in> set cs. resolver n c \<Longrightarrow> \<exists>cc \<in> set cs. renamed p cs n = p @ cc"
proof (induction cs arbitrary: n)
  case Nil
  then show ?case by simp
next
  case (Cons c cs)
  show ?case
  proof (cases "resolver n c")
    case True
    show ?thesis
    proof (cases "\<exists>c' \<in> set cs. resolver (p @ c) c'")
      case True
      from Cons.IH [OF this] show ?thesis using \<open>resolver n c\<close> by (auto simp: renamed_Cons)
    next
      case False
      then have "renamed p cs (p @ c) = p @ c" by (simp add: renamed_other)
      then show ?thesis using \<open>resolver n c\<close> by (simp add: renamed_Cons)
    qed
  next
    case False
    with Cons.prems have "\<exists>c' \<in> set cs. resolver n c'" by auto
    from Cons.IH [OF this] show ?thesis using False by (auto simp: renamed_Cons)
  qed
qed

text \<open>Without a chain (no column name of the pass is itself a prefixed column name), a
  column is renamed at most once: by the first name of the pass it resolves to.\<close>

lemma renamed_find:
  assumes "\<forall>c \<in> set cs. \<forall>c' \<in> set cs. \<not> resolver (p @ c) c'"
  shows "renamed p cs n = (case find (resolver n) cs of None \<Rightarrow> n | Some c \<Rightarrow> p @ c)"
  using assms
proof (induction cs arbitrary: n)
  case Nil
  then show ?case by (simp add: renamed_Nil)
next
  case (Cons c cs)
  show ?case
  proof (cases "resolver n c")
    case True
    have "renamed p cs (p @ c) = p @ c"
      using Cons.prems by (intro renamed_other) auto
    then show ?thesis using True by (simp add: renamed_Cons)
  next
    case False
    then show ?thesis using Cons by (simp add: renamed_Cons)
  qed
qed

lemma renamed_hit:
  assumes "c \<in> set cs" "resolver n c" "\<forall>x \<in> set cs. resolver x c \<longrightarrow> x = c"
    "\<forall>x \<in> set cs. \<forall>x' \<in> set cs. \<not> resolver (p @ x) x'"
  shows "renamed p cs n = p @ c"
proof -
  have "\<exists>x. find (resolver n) cs = Some x"
    using assms(1,2) by (cases "find (resolver n) cs") (auto simp: find_None_iff)
  then obtain x where x: "find (resolver n) cs = Some x" ..
  then have "x \<in> set cs" "resolver n x"
    by (auto simp: find_Some_iff)
  then have "resolver x c" using assms(2) by (auto simp: resolver_def)
  with assms(3) \<open>x \<in> set cs\<close> have "x = c" by simp
  with x show ?thesis by (simp add: renamed_find [OF assms(4)])
qed


lemma schema_merge_step:
  assumes "merge_step mg attr ac bc ak bk p = Inr out"
  shows "schema out =
     map (\<lambda>c. (renamed p [cc \<leftarrow> columns attr. cc \<notin> set [ak, bk]] (fst c), snd c))
       (schema (drop_cols mg [ak, bk]) @ schema (drop_cols attr [ak, bk]))"
proof -
  from assms obtain a b c d where
    out: "out = add_col_prefix (drop_cols (join_left mg attr [(a, b), (c, d)]) [ak, bk])
             (columns attr) p [ak, bk]"
    by (rule merge_step_Inr)
  show ?thesis
    unfolding out schema_add_col_prefix by (simp add: schema_drop_cols schema_join_left)
qed

lemma ad_remove_cols_eq:
  "ad_remove_cols = [''ARR_TIME_DT_LOCAL'', ''ARR_TIME_DT_LOCAL_DAY'', ''ARR_TIME_DT_LOCAL_HR'',
     ''ARR_TIME_DT_LOCAL_QTHR'', ''DEP_TIME_DT_LOCAL'', ''DEP_TIME_DT_LOCAL_DAY'',
     ''DEP_TIME_DT_LOCAL_HR'', ''DEP_TIME_DT_LOCAL_QTHR'']"
  by (simp add: ad_remove_cols_def with_prefixes_def)

lemma od_remove_cols_eq:
  "od_remove_cols = [''ORIGIN_DT_LOCAL_QTHR'', ''ORIGIN_DT_LOCAL_HR'', ''DEST_DT_LOCAL_QTHR'',
     ''DEST_DT_LOCAL_HR'']"
  by (simp add: od_remove_cols_def with_prefixes_def)

lemma in_schema_merge_tables:
  assumes "merge_tables f d w = Inr mg" "ct \<in> set (schema f)"
    "\<forall>x \<in> set ([''ARPT_NAME'', ''DT_LOCAL_QTHR'', ''DT_LOCAL_HR''] @ columns d @ columns w).
       \<not> resolver (fst ct) x"
  shows "ct \<in> set (schema mg)"
proof -
  from assms(1) obtain mg1 mg2 mg3 where s:
    "merge_step f d ''ORIGIN'' ''DEP_TIME_DT_LOCAL_QTHR'' ''ARPT_NAME'' ''DT_LOCAL_QTHR'' ''ORIGIN_'' = Inr mg1"
    "merge_step mg1 d ''DEST'' ''ARR_TIME_DT_LOCAL_QTHR'' ''ARPT_NAME'' ''DT_LOCAL_QTHR'' ''DEST_'' = Inr mg2"
    "merge_step mg2 w ''ORIGIN'' ''DEP_TIME_DT_LOCAL_HR'' ''ARPT_NAME'' ''DT_LOCAL_HR'' ''ORIGIN_'' = Inr mg3"
    "merge_step mg3 w ''DEST'' ''ARR_TIME_DT_LOCAL_HR'' ''ARPT_NAME'' ''DT_LOCAL_HR'' ''DEST_'' = Inr mg"
    by (rule merge_tables_Inr)
  have k: "\<not> resolver (fst ct) ''ARPT_NAME''" "\<not> resolver (fst ct) ''DT_LOCAL_QTHR''"
    "\<not> resolver (fst ct) ''DT_LOCAL_HR''" "\<forall>x \<in> set (columns d). \<not> resolver (fst ct) x"
    "\<forall>x \<in> set (columns w). \<not> resolver (fst ct) x"
    using assms(3) by auto
  have "ct \<in> set (schema mg1)" by (rule in_schema_merge_step [OF s(1) assms(2) k(1,2,4)])
  then have "ct \<in> set (schema mg2)" by (rule in_schema_merge_step [OF s(2) _ k(1,2,4)])
  then have "ct \<in> set (schema mg3)" by (rule in_schema_merge_step [OF s(3) _ k(1,3,5)])
  then show "ct \<in> set (schema mg)" by (rule in_schema_merge_step [OF s(4) _ k(1,3,5)])
qed

section \<open>A small run of the notebook\<close>

text \<open>Three staged tables, the tables the loader makes of them, the merged table and the
  table handed to the writer. The lemmas evaluate each stage of the notebook on them.\<close>

lemma upper_char_simps:
  "upper_char CHR ''A'' = CHR ''A''" "upper_char CHR ''B'' = CHR ''B''" "upper_char CHR ''C'' = CHR ''C''"
  "upper_char CHR ''D'' = CHR ''D''" "upper_char CHR ''E'' = CHR ''E''" "upper_char CHR ''F'' = CHR ''F''"
  "upper_char CHR ''G'' = CHR ''G''" "upper_char CHR ''H'' = CHR ''H''" "upper_char CHR ''I'' = CHR ''I''"
  "upper_char CHR ''J'' = CHR ''J''" "upper_char CHR ''K'' = CHR ''K''" "upper_char CHR ''L'' = CHR ''L''"
  "upper_char CHR ''M'' = CHR ''M''" "upper_char CHR ''N'' = CHR ''N''" "upper_char CHR ''O'' = CHR ''O''"
  "upper_char CHR ''P'' = CHR ''P''" "upper_char CHR ''Q'' = CHR ''Q''" "upper_char CHR ''R'' = CHR ''R''"
  "upper_char CHR ''S'' = CHR ''S''" "upper_char CHR ''T'' = CHR ''T''" "upper_char CHR ''U'' = CHR ''U''"
  "upper_char CHR ''V'' = CHR ''V''" "upper_char CHR ''W'' = CHR ''W''" "upper_char CHR ''X'' = CHR ''X''"
  "upper_char CHR ''Y'' = CHR ''Y''" "upper_char CHR ''Z'' = CHR ''Z''" "upper_char CHR ''0'' = CHR ''0''"
  "upper_char CHR ''1'' = CHR ''1''" "upper_char CHR ''2'' = CHR ''2''" "upper_char CHR ''3'' = CHR ''3''"
  "upper_char CHR ''4'' = CHR ''4''" "upper_char CHR ''5'' = CHR ''5''" "upper_char CHR ''6'' = CHR ''6''"
  "upper_char CHR ''7'' = CHR ''7''" "upper_char CHR ''8'' = CHR ''8''" "upper_char CHR ''9'' = CHR ''9''"
  "upper_char CHR ''_'' = CHR ''_''" "upper_char CHR ''a'' = CHR ''A''" "upper_char CHR ''b'' = CHR ''B''"
  "upper_char CHR ''c'' = CHR ''C''" "upper_char CHR ''d'' = CHR ''D''" "upper_char CHR ''e'' = CHR ''E''"
  "upper_char CHR ''f'' = CHR ''F''" "upper_char CHR ''g'' = CHR ''G''" "upper_char CHR ''h'' = CHR ''H''"
  "upper_char CHR ''i'' = CHR ''I''" "upper_char CHR ''j'' = CHR ''J''" "upper_char CHR ''k'' = CHR ''K''"
  "upper_char CHR ''l'' = CHR ''L''" "upper_char CHR ''m'' = CHR ''M''" "upper_char CHR ''n'' = CHR ''N''"
  "upper_char CHR ''o'' = CHR ''O''" "upper_char CHR ''p'' = CHR ''P''" "upper_char CHR ''q'' = CHR ''Q''"
  "upper_char CHR ''r'' = CHR ''R''" "upper_char CHR ''s'' = CHR ''S''" "upper_char CHR ''t'' = CHR ''T''"
  "upper_char CHR ''u'' = CHR ''U''" "upper_char CHR ''v'' = CHR ''V''" "upper_char CHR ''w'' = CHR ''W''"
  "upper_char CHR ''x'' = CHR ''X''" "upper_char CHR ''y'' = CHR ''Y''" "upper_char CHR ''z'' = CHR ''Z''"
  by (simp_all add: upper_char_def)

lemmas eval_defs = clean_columns_def merge_tables_def merge_step_def add_col_prefix_def
  load_attr_def load_flights_def drop_meta_cols_def arpt_demand_attr_cols_def od_remove_cols_def
  ad_remove_cols_def with_prefixes_def fillna_def withColumnRenamed_def drop_cols_def select_mask_def
  join_left_def join_row_def matches_def sql_eq_def cell_def col_def columns_def bindE_Inr bindE_Inl
  resolver_def fold_case_def upper_char_simps is_numeric_def fill_zero_def
  upt_rec[of 0] upt_rec[of "Suc _"] upt_rec[of "numeral _"] Let_def

definition ex_flights :: dataframe where
  "ex_flights = \<lparr>schema = [(''ORIGIN'', StringType), (''DEST'', StringType),
      (''DEP_TIME_DT_LOCAL_QTHR'', TimestampType), (''ARR_TIME_DT_LOCAL_QTHR'', TimestampType),
      (''DEP_TIME_DT_LOCAL_HR'', TimestampType), (''ARR_TIME_DT_LOCAL_HR'', TimestampType),
      (''ARR_DELAY'', LongType), (''YYYYMM'', LongType), (''__index_level_0__'', LongType)],
    rows = [[Str ''JFK'', Str ''LAX'', Ts 1, Ts 7, Ts 0, Ts 4, Num 12, Num 202001, Num 0],
            [Str ''LAX'', Str ''JFK'', Ts 7, Ts 9, Ts 4, Ts 8, Null, Num 202002, Num 1]]\<rparr>"

definition ex_demand :: dataframe where
  "ex_demand = \<lparr>schema = [(''ARPT_NAME'', StringType), (''DT_LOCAL_QTHR'', TimestampType),
      (''DEP_CNT'', LongType), (''DT_LOCAL_DAY'', TimestampType), (''YEAR'', LongType)],
    rows = [[Str ''LAX'', Ts 7, Num 5, Ts 0, Num 2020]]\<rparr>"

definition ex_weather :: dataframe where
  "ex_weather = \<lparr>schema = [(''ARPT_NAME'', StringType), (''DT_LOCAL_HR'', TimestampType),
      (''TEMP'', DoubleType), (''YEAR'', LongType)],
    rows = [[Str ''JFK'', Ts 0, Num 3, Num 2020]]\<rparr>"

definition ex_nas_flights :: dataframe where
  "ex_nas_flights = \<lparr>schema = [(''ORIGIN'', StringType), (''DEST'', StringType),
      (''DEP_TIME_DT_LOCAL_QTHR'', TimestampType), (''ARR_TIME_DT_LOCAL_QTHR'', TimestampType),
      (''DEP_TIME_DT_LOCAL_HR'', TimestampType), (''ARR_TIME_DT_LOCAL_HR'', TimestampType),
      (''ARR_DELAY'', LongType), (''YYYYMM'', LongType)],
    rows = [[Str ''JFK'', Str ''LAX'', Ts 1, Ts 7, Ts 0, Ts 4, Num 12, Num 202001],
            [Str ''LAX'', Str ''JFK'', Ts 7, Ts 9, Ts 4, Ts 8, Null, Num 202002]]\<rparr>"

definition ex_arpt_demand :: dataframe where
  "ex_arpt_demand = \<lparr>schema = [(''ARPT_NAME'', StringType), (''DT_LOCAL_QTHR'', TimestampType),
      (''DEP_CNT'', LongType), (''DT_LOCAL_DAY'', TimestampType)],
    rows = [[Str ''LAX'', Ts 7, Num 5, Ts 0]]\<rparr>"

definition ex_arpt_weather :: dataframe where
  "ex_arpt_weather = \<lparr>schema = [(''ARPT_NAME'', StringType), (''DT_LOCAL_HR'', TimestampType),
      (''TEMP'', DoubleType)],
    rows = [[Str ''JFK'', Ts 0, Num 3]]\<rparr>"

definition ex_merged :: dataframe where
  "ex_merged = \<lparr>schema = [(''ORIGIN'', StringType), (''DEST'', StringType),
      (''DEP_TIME_DT_LOCAL_QTHR'', TimestampType), (''ARR_TIME_DT_LOCAL_QTHR'', TimestampType),
      (''DEP_TIME_DT_LOCAL_HR'', TimestampType), (''ARR_TIME_DT_LOCAL_HR'', TimestampType),
      (''ARR_DELAY'', LongType), (''YYYYMM'', LongType),
      (''ORIGIN_DEP_CNT'', LongType), (''ORIGIN_DT_LOCAL_DAY'', TimestampType),
      (''DEST_DEP_CNT'', LongType), (''DEST_DT_LOCAL_DAY'', TimestampType),
      (''ORIGIN_TEMP'', DoubleType), (''DEST_TEMP'', DoubleType)],
    rows = [[Str ''JFK'', Str ''LAX'', Ts 1, Ts 7, Ts 0, Ts 4, Num 12, Num 202001,
             Null, Null, Num 5, Ts 0, Num 3, Null],
            [Str ''LAX'', Str ''JFK'', Ts 7, Ts 9, Ts 4, Ts 8, Null, Num 202002,
             Num 5, Ts 0, Null, Null, Null, Null]]\<rparr>"

definition ex_out :: dataframe where
  "ex_out = \<lparr>schema = [(''ORIGIN'', StringType), (''DEST'', StringType),
      (''ARR_DELAY'', LongType), (''YYYYMM'', LongType),
      (''ORIGIN_DEP_CNT'', LongType), (''ORIGIN_DT_LOCAL_DAY'', TimestampType),
      (''DEST_DEP_CNT'', LongType), (''DEST_DT_LOCAL_DAY'', TimestampType),
      (''ORIGIN_TEMP'', DoubleType), (''DEST_TEMP'', DoubleType)],
    rows = [[Str ''JFK'', Str ''LAX'', Num 12, Num 202001, Num 0, Null, Num 5, Ts 0, Num 3, Null],
            [Str ''LAX'', Str ''JFK'', Null, Num 202002, Num 5, Ts 0, Num 0, Null, Null, Null]]\<rparr>"

lemma ex_load:
  "load_flights ex_flights = ex_nas_flights"
  "load_attr ex_demand = ex_arpt_demand"
  "load_attr ex_weather = ex_arpt_weather"
  by (simp_all add: eval_defs ex_flights_def ex_demand_def ex_weather_def
      ex_nas_flights_def ex_arpt_demand_def ex_arpt_weather_def)

lemma ex_merge: "merge_tables ex_nas_flights ex_arpt_demand ex_arpt_weather = Inr ex_merged"
  by (simp add: eval_defs ex_nas_flights_def ex_arpt_demand_def ex_arpt_weather_def ex_merged_def
      cong: bindE_weak_cong)

lemma ex_clean: "clean_columns ex_merged ex_arpt_demand = Inr ex_out"
  by (simp add: eval_defs ex_arpt_demand_def ex_merged_def ex_out_def cong: bindE_weak_cong)

lemma ex_etl: "etl ex_flights ex_demand ex_weather = Inr ex_out"
  by (simp add: etl_def ex_load ex_merge ex_clean bindE_Inr)

lemma ex_loaded_load:
  "load_attr ex_arpt_demand = ex_arpt_demand" "load_attr ex_arpt_weather = ex_arpt_weather"
  by (simp_all add: eval_defs ex_arpt_demand_def ex_arpt_weather_def)

lemma ex_wf: "wf_df ex_nas_flights" "wf_df ex_arpt_demand" "wf_df ex_arpt_weather"
  by (simp_all add: wf_df_def ex_nas_flights_def ex_arpt_demand_def ex_arpt_weather_def)

section \<open>Counting the columns of a name\<close>

text \<open>The number of columns of a table that a name resolves to.\<close>

definition occurrences :: "dataframe \<Rightarrow> string \<Rightarrow> nat" where
  "occurrences df n = length [c \<leftarrow> columns df. resolver c n]"

lemma occurrences_cong: "resolver a b \<Longrightarrow> occurrences df a = occurrences df b"
  by (simp add: occurrences_def resolver_def)

lemma occurrences_0_iff: "occurrences df n = 0 \<longleftrightarrow> (\<forall>c \<in> set (columns df). \<not> resolver c n)"
  by (simp add: occurrences_def filter_empty_conv)

lemma occurrences_drop_cols:
  "occurrences (drop_cols df ns) T = (if list_ex (resolver T) ns then 0 else occurrences df T)"
proof (cases "list_ex (resolver T) ns")
  case True
  then obtain k where k: "k \<in> set ns" "resolver T k" by (auto simp: list_ex_iff)
  have "\<not> resolver c T" if "c \<in> set (columns (drop_cols df ns))" for c
  proof
    assume "resolver c T"
    with k(2) have "resolver c k" by (simp add: resolver_def)
    with that k(1) show False by (auto simp: columns_drop_cols list_ex_iff)
  qed
  with True show ?thesis by (simp add: occurrences_0_iff)
next
  case False
  have "[c \<leftarrow> columns (drop_cols df ns). resolver c T] = [c \<leftarrow> columns df. resolver c T]"
    unfolding columns_drop_cols filter_filter
  proof (rule filter_cong [OF refl])
    fix c assume "c \<in> set (columns df)"
    show "(\<not> list_ex (resolver c) ns \<and> resolver c T) = resolver c T"
      using False by (auto simp: list_ex_iff resolver_def)
  qed
  with False show ?thesis by (simp add: occurrences_def)
qed

lemma occurrences_fillna: "fillna df ns = Inr out \<Longrightarrow> occurrences out T = occurrences df T"
  by (simp add: occurrences_def columns_def schema_fillna)

lemma find_SomeD: "find P xs = Some x \<Longrightarrow> x \<in> set xs \<and> P x"
  by (induction xs) (auto split: if_splits)

lemma length_filter_distinct_map:
  "distinct (map f xs) \<Longrightarrow> c \<in> set xs \<Longrightarrow> length [x \<leftarrow> xs. f x = f c] = 1"
proof (induction xs)
  case Nil
  then show ?case by simp
next
  case (Cons x xs)
  show ?case
  proof (cases "f x = f c")
    case True
    with Cons.prems have "f c \<notin> f ` set xs" by auto
    then have "\<forall>y \<in> set xs. f y \<noteq> f c" by (metis image_eqI)
    then have "[y \<leftarrow> xs. f y = f c] = []" by (simp add: filter_empty_conv)
    with True show ?thesis by simp
  next
    case False
    with Cons show ?thesis by auto
  qed
qed

lemma occurrences_distinct:
  assumes "distinct (map fold_case (columns df))" "c \<in> set (columns df)"
  shows "occurrences df c = 1"
  using length_filter_distinct_map [OF assms] by (simp add: occurrences_def resolver_def)

lemma columns_merge_step:
  assumes "merge_step mg attr ac bc ak bk p = Inr out"
  shows "columns out =
     map (renamed p [cc \<leftarrow> columns attr. cc \<notin> set [ak, bk]])
       (columns (drop_cols mg [ak, bk]) @ columns (drop_cols attr [ak, bk]))"
  unfolding columns_def schema_merge_step [OF assms] by (simp add: comp_def)

lemma length_filter_map_renamed:
  assumes "\<forall>c \<in> set cs. \<forall>c' \<in> set cs. \<not> resolver (p @ c) c'"
  shows "length [n \<leftarrow> map (renamed p cs) ns. resolver n T] =
         length [n \<leftarrow> ns. case find (resolver n) cs of None \<Rightarrow> resolver n T
                                                     | Some c \<Rightarrow> resolver (p @ c) T]"
proof -
  have "[n \<leftarrow> map (renamed p cs) ns. resolver n T] =
        map (renamed p cs) [n \<leftarrow> ns. resolver (renamed p cs n) T]"
    by (simp add: filter_map comp_def)
  moreover have "resolver (renamed p cs n) T =
      (case find (resolver n) cs of None \<Rightarrow> resolver n T | Some c \<Rightarrow> resolver (p @ c) T)" for n
    by (simp add: renamed_find [OF assms] split: option.split)
  ultimately show ?thesis by simp
qed

text \<open>How one merge changes the number of columns of a name.\<close>

lemma occurrences_merge_step_key:
  assumes step: "merge_step mg attr ac bc ak bk p = Inr out"
    and pk: "\<forall>x. \<not> resolver (p @ x) T"
    and key: "resolver T ak \<or> resolver T bk"
  shows "occurrences out T = 0"
proof -
  define cs where "cs = [cc \<leftarrow> columns attr. cc \<notin> set [ak, bk]]"
  define ns where "ns = columns (drop_cols mg [ak, bk]) @ columns (drop_cols attr [ak, bk])"
  have cols: "columns out = map (renamed p cs) ns"
    unfolding cs_def ns_def by (rule columns_merge_step [OF step])
  have cs_attr: "\<And>x. x \<in> set cs \<Longrightarrow> x \<in> set (columns attr)"
    by (simp add: cs_def)
  have ns_keys: "\<And>n. n \<in> set ns \<Longrightarrow> \<not> resolver n ak \<and> \<not> resolver n bk"
    by (auto simp: ns_def columns_drop_cols)
  have occ_ns: "\<And>T. length [n \<leftarrow> ns. resolver n T]
      = occurrences (drop_cols mg [ak, bk]) T + occurrences (drop_cols attr [ak, bk]) T"
    by (simp add: ns_def occurrences_def)
  have "\<not> resolver (renamed p cs n) T" if "n \<in> set ns" for n
  proof (cases "\<exists>c \<in> set cs. resolver n c")
    case True
    from renamed_has_prefix [OF this, of p] pk show ?thesis by auto
  next
    case False
    then have "renamed p cs n = n" by (intro renamed_other) auto
    moreover have "\<not> resolver n T"
    proof
      assume "resolver n T"
      with key have "resolver n ak \<or> resolver n bk" by (auto simp: resolver_def)
      with ns_keys [OF that] show False by simp
    qed
    ultimately show ?thesis by simp
  qed
  then show ?thesis
    unfolding occurrences_0_iff cols by auto
qed

lemma occurrences_merge_step_miss:
  assumes step: "merge_step mg attr ac bc ak bk p = Inr out"
    and nochain: "\<forall>c \<in> set (columns attr). \<forall>x. \<not> resolver c (p @ x)"
    and nokey: "\<not> resolver T ak" "\<not> resolver T bk"
    and noattr: "\<forall>c \<in> set (columns attr). \<not> resolver T c"
    and nopre: "\<forall>c \<in> set (columns attr). \<not> resolver c ak \<and> \<not> resolver c bk \<longrightarrow> \<not> resolver T (p @ c)"
  shows "occurrences out T = occurrences mg T"
proof -
  define cs where "cs = [cc \<leftarrow> columns attr. cc \<notin> set [ak, bk]]"
  define ns where "ns = columns (drop_cols mg [ak, bk]) @ columns (drop_cols attr [ak, bk])"
  have cols: "columns out = map (renamed p cs) ns"
    unfolding cs_def ns_def by (rule columns_merge_step [OF step])
  have cs_attr: "\<And>x. x \<in> set cs \<Longrightarrow> x \<in> set (columns attr)"
    by (simp add: cs_def)
  have ns_keys: "\<And>n. n \<in> set ns \<Longrightarrow> \<not> resolver n ak \<and> \<not> resolver n bk"
    by (auto simp: ns_def columns_drop_cols)
  have occ_ns: "\<And>T. length [n \<leftarrow> ns. resolver n T]
      = occurrences (drop_cols mg [ak, bk]) T + occurrences (drop_cols attr [ak, bk]) T"
    by (simp add: ns_def occurrences_def)
  have nc: "\<forall>c \<in> set cs. \<forall>c' \<in> set cs. \<not> resolver (p @ c) c'"
    using nochain cs_attr by (auto simp: resolver_sym)
  have "[n \<leftarrow> ns. case find (resolver n) cs of None \<Rightarrow> resolver n T | Some c \<Rightarrow> resolver (p @ c) T]
      = [n \<leftarrow> ns. resolver n T]"
  proof (rule filter_cong [OF refl])
    fix n assume n: "n \<in> set ns"
    then have nk: "\<not> resolver n ak" "\<not> resolver n bk" using ns_keys by auto
    show "(case find (resolver n) cs of None \<Rightarrow> resolver n T | Some c \<Rightarrow> resolver (p @ c) T)
        = resolver n T"
    proof (cases "find (resolver n) cs")
      case None
      then show ?thesis by simp
    next
      case (Some c)
      then have c: "c \<in> set (columns attr)" "resolver n c"
        using cs_attr by (auto dest: find_SomeD)
      with nk have "\<not> resolver c ak" "\<not> resolver c bk" by (auto simp: resolver_def)
      with c(1) nopre have "\<not> resolver T (p @ c)" by simp
      moreover have "\<not> resolver n T"
        using noattr c by (auto simp: resolver_def)
      ultimately show ?thesis using Some by (simp add: resolver_sym)
    qed
  qed
  then have "occurrences out T = length [n \<leftarrow> ns. resolver n T]"
    by (simp only: occurrences_def cols length_filter_map_renamed [OF nc])
  also have "\<dots> = occurrences (drop_cols mg [ak, bk]) T + occurrences (drop_cols attr [ak, bk]) T"
    by (rule occ_ns)
  also have "\<dots> = occurrences mg T"
    using nokey noattr by (simp add: occurrences_drop_cols occurrences_0_iff resolver_sym)
  finally show ?thesis .
qed

lemma occurrences_merge_step_hit:
  assumes step: "merge_step mg attr ac bc ak bk p = Inr out"
    and uniq: "distinct (map fold_case (columns attr))"
    and nochain: "\<forall>c \<in> set (columns attr). \<forall>x. \<not> resolver c (p @ x)"
    and pk: "\<forall>x. \<not> resolver (p @ x) ak \<and> \<not> resolver (p @ x) bk"
    and c: "c \<in> set (columns attr)" "\<not> resolver c ak" "\<not> resolver c bk"
  shows "occurrences out c = 0"
    and "occurrences out (p @ c) = occurrences mg (p @ c) + occurrences mg c + 1"
proof -
  define cs where "cs = [cc \<leftarrow> columns attr. cc \<notin> set [ak, bk]]"
  define ns where "ns = columns (drop_cols mg [ak, bk]) @ columns (drop_cols attr [ak, bk])"
  have cols: "columns out = map (renamed p cs) ns"
    unfolding cs_def ns_def by (rule columns_merge_step [OF step])
  have cs_attr: "\<And>x. x \<in> set cs \<Longrightarrow> x \<in> set (columns attr)"
    by (simp add: cs_def)
  have ns_keys: "\<And>n. n \<in> set ns \<Longrightarrow> \<not> resolver n ak \<and> \<not> resolver n bk"
    by (auto simp: ns_def columns_drop_cols)
  have occ_ns: "\<And>T. length [n \<leftarrow> ns. resolver n T]
      = occurrences (drop_cols mg [ak, bk]) T + occurrences (drop_cols attr [ak, bk]) T"
    by (simp add: ns_def occurrences_def)
  have nc: "\<forall>c \<in> set cs. \<forall>c' \<in> set cs. \<not> resolver (p @ c) c'"
    using nochain cs_attr by (auto simp: resolver_sym)
  have ccs: "c \<in> set cs" using c by (auto simp: cs_def resolver_refl)
  have same: "x = y" if "x \<in> set (columns attr)" "y \<in> set (columns attr)" "resolver x y" for x y
    using uniq that by (auto simp: resolver_def distinct_map dest: inj_onD)
  have "\<not> resolver (renamed p cs n) c" for n
  proof (cases "find (resolver n) cs")
    case None
    then have "\<not> resolver n c" using ccs by (auto simp: find_None_iff)
    then show ?thesis using None by (simp add: renamed_find [OF nc])
  next
    case (Some x)
    then show ?thesis using nochain c(1) by (simp add: renamed_find [OF nc] resolver_sym)
  qed
  then show "occurrences out c = 0"
    unfolding occurrences_0_iff cols by auto
  have "[n \<leftarrow> ns. case find (resolver n) cs of None \<Rightarrow> resolver n (p @ c)
                                               | Some x \<Rightarrow> resolver (p @ x) (p @ c)]
      = [n \<leftarrow> ns. resolver n (p @ c) \<or> resolver n c]"
  proof (rule filter_cong [OF refl])
    fix n assume n: "n \<in> set ns"
    show "(case find (resolver n) cs of None \<Rightarrow> resolver n (p @ c)
                                       | Some x \<Rightarrow> resolver (p @ x) (p @ c))
        = (resolver n (p @ c) \<or> resolver n c)"
    proof (cases "find (resolver n) cs")
      case None
      then have "\<not> resolver n c" using ccs by (auto simp: find_None_iff)
      then show ?thesis using None by simp
    next
      case (Some x)
      then have x: "x \<in> set (columns attr)" "resolver n x"
        using cs_attr by (auto dest: find_SomeD)
      have "\<not> resolver n (p @ c)"
      proof
        assume "resolver n (p @ c)"
        with x(2) have "resolver x (p @ c)" by (simp add: resolver_def)
        with nochain x(1) show False by simp
      qed
      moreover have "resolver x c \<longleftrightarrow> resolver n c"
        using x(2) by (auto simp: resolver_def)
      ultimately show ?thesis using Some by (simp add: resolver_prefix)
    qed
  qed
  then have "occurrences out (p @ c) = length [n \<leftarrow> ns. resolver n (p @ c) \<or> resolver n c]"
    by (simp only: occurrences_def cols length_filter_map_renamed [OF nc])
  also have "\<dots> = length [n \<leftarrow> ns. resolver n (p @ c)] + length [n \<leftarrow> ns. resolver n c]"
  proof -
    have "\<not> (resolver n (p @ c) \<and> resolver n c)" for n
    proof
      assume "resolver n (p @ c) \<and> resolver n c"
      then have "resolver c (p @ c)" unfolding resolver_def by metis
      with nochain c(1) show False by blast
    qed
    then show ?thesis
      by (induction ns) auto
  qed
  also have "length [n \<leftarrow> ns. resolver n (p @ c)] = occurrences mg (p @ c)"
  proof -
    have "length [n \<leftarrow> ns. resolver n (p @ c)]
        = occurrences (drop_cols mg [ak, bk]) (p @ c) + occurrences (drop_cols attr [ak, bk]) (p @ c)"
      by (rule occ_ns)
    also have "\<dots> = occurrences mg (p @ c) + occurrences attr (p @ c)"
      using pk by (simp add: occurrences_drop_cols)
    also have "occurrences attr (p @ c) = 0"
      using nochain by (simp add: occurrences_0_iff)
    finally show ?thesis by simp
  qed
  also have "length [n \<leftarrow> ns. resolver n c] = occurrences mg c + 1"
  proof -
    have "length [n \<leftarrow> ns. resolver n c]
        = occurrences (drop_cols mg [ak, bk]) c + occurrences (drop_cols attr [ak, bk]) c"
      by (rule occ_ns)
    also have "\<dots> = occurrences mg c + occurrences attr c"
      using c by (simp add: occurrences_drop_cols)
    finally show ?thesis by (simp add: occurrences_distinct [OF uniq c(1)])
  qed
  finally show "occurrences out (p @ c) = occurrences mg (p @ c) + occurrences mg c + 1"
    by simp
qed

definition starts_with :: "string \<Rightarrow> string \<Rightarrow> bool" where
  "starts_with prefix c = (take (length prefix) (fold_case c) = fold_case prefix)"

lemma resolver_starts_with: "resolver c (p @ x) \<Longrightarrow> starts_with p c"
  by (simp add: resolver_def starts_with_def fold_case_append) (simp add: fold_case_def)

lemma fold_case_prefixes:
  "fold_case ''ORIGIN_'' = ''ORIGIN_''" "fold_case ''DEST_'' = ''DEST_''"
  by (simp_all add: fold_case_def upper_char_simps)

lemma fold_case_keys:
  "fold_case ''ARPT_NAME'' = ''ARPT_NAME''" "fold_case ''DT_LOCAL_QTHR'' = ''DT_LOCAL_QTHR''"
  "fold_case ''DT_LOCAL_HR'' = ''DT_LOCAL_HR''"
  by (simp_all add: fold_case_def upper_char_simps)

lemma fold_case_removed:
  "map fold_case ad_remove_cols = ad_remove_cols" "map fold_case od_remove_cols = od_remove_cols"
  by (simp_all add: ad_remove_cols_eq od_remove_cols_eq fold_case_def upper_char_simps)

lemma prefix_key_facts:
  "\<not> resolver (''ORIGIN_'' @ x) ''ARPT_NAME''" "\<not> resolver (''ORIGIN_'' @ x) ''DT_LOCAL_QTHR''"
  "\<not> resolver (''ORIGIN_'' @ x) ''DT_LOCAL_HR''"
  "\<not> resolver (''DEST_'' @ x) ''ARPT_NAME''" "\<not> resolver (''DEST_'' @ x) ''DT_LOCAL_QTHR''"
  "\<not> resolver (''DEST_'' @ x) ''DT_LOCAL_HR''"
  "\<not> resolver (''ORIGIN_'' @ x) (''DEST_'' @ y)" "\<not> resolver (''DEST_'' @ x) (''ORIGIN_'' @ y)"
  "\<not> resolver ''ARPT_NAME'' ''DT_LOCAL_QTHR''" "\<not> resolver ''ARPT_NAME'' ''DT_LOCAL_HR''"
  "\<not> resolver ''DT_LOCAL_QTHR'' ''DT_LOCAL_HR''"
  by (simp_all add: resolver_def fold_case_def upper_char_simps)

lemma prefixed_not_leakage:
  "\<not> list_ex (resolver (''ORIGIN_'' @ x)) ad_remove_cols"
  "\<not> list_ex (resolver (''DEST_'' @ x)) ad_remove_cols"
  by (simp_all add: ad_remove_cols_eq resolver_def fold_case_def upper_char_simps)

lemma bare_not_removed:
  assumes "\<not> starts_with ''ORIGIN_'' c" "\<not> starts_with ''DEST_'' c"
  shows "\<not> list_ex (resolver c) od_remove_cols"
  using assms resolver_starts_with [of c "''ORIGIN_''"] resolver_starts_with [of c "''DEST_''"]
  by (auto simp: od_remove_cols_def with_prefixes_def)

lemma col_InrD:
  assumes "col df n = Inr i"
  shows "i < length (schema df)" "resolver (fst (schema df ! i)) n"
proof -
  let ?js = "[j \<leftarrow> [0..<length (schema df)]. resolver (fst (schema df ! j)) n]"
  from assms have "?js = [i]"
    by (auto simp: col_def split: list.splits)
  then have "i \<in> set ?js" by simp
  then show "i < length (schema df)" "resolver (fst (schema df ! i)) n" by auto
qed

lemma col_Inr_column:
  assumes "col df n = Inr i"
  shows "\<exists>c \<in> set (columns df). resolver c n"
  using col_InrD [OF assms] by (auto simp: columns_def intro!: bexI [of _ "schema df ! i"])

text \<open>The two merges with one attribute table, first with prefix \<open>p1\<close>, then with \<open>p2\<close>.\<close>

lemma occurrences_two_passes_hit:
  assumes s1: "merge_step mg attr ac1 bc1 ak bk p1 = Inr m1"
    and s2: "merge_step m1 attr ac2 bc2 ak bk p2 = Inr m2"
    and uniq: "distinct (map fold_case (columns attr))"
    and nochain1: "\<forall>c \<in> set (columns attr). \<forall>x. \<not> resolver c (p1 @ x)"
    and nochain2: "\<forall>c \<in> set (columns attr). \<forall>x. \<not> resolver c (p2 @ x)"
    and pk1: "\<forall>x. \<not> resolver (p1 @ x) ak \<and> \<not> resolver (p1 @ x) bk"
    and pk2: "\<forall>x. \<not> resolver (p2 @ x) ak \<and> \<not> resolver (p2 @ x) bk"
    and cross: "\<forall>x y. \<not> resolver (p1 @ x) (p2 @ y)"
    and c: "c \<in> set (columns attr)" "\<not> resolver c ak" "\<not> resolver c bk"
  shows "occurrences m2 c = 0"
    and "occurrences m2 (p1 @ c) = occurrences mg (p1 @ c) + occurrences mg c + 1"
    and "occurrences m2 (p2 @ c) = occurrences mg (p2 @ c) + 1"
proof -
  note h1 = occurrences_merge_step_hit [OF s1 uniq nochain1 pk1 c]
  note h2 = occurrences_merge_step_hit [OF s2 uniq nochain2 pk2 c]
  show "occurrences m2 c = 0" by (rule h2(1))
  have "occurrences m2 (p1 @ c) = occurrences m1 (p1 @ c)"
  proof (rule occurrences_merge_step_miss [OF s2 nochain2])
    show "\<not> resolver (p1 @ c) ak" "\<not> resolver (p1 @ c) bk" using pk1 by auto
    show "\<forall>x \<in> set (columns attr). \<not> resolver (p1 @ c) x"
      using nochain1 by (auto simp: resolver_sym)
    show "\<forall>x \<in> set (columns attr). \<not> resolver x ak \<and> \<not> resolver x bk \<longrightarrow> \<not> resolver (p1 @ c) (p2 @ x)"
      using cross by auto
  qed
  then show "occurrences m2 (p1 @ c) = occurrences mg (p1 @ c) + occurrences mg c + 1"
    by (simp add: h1(2))
  have "occurrences m1 (p2 @ c) = occurrences mg (p2 @ c)"
  proof (rule occurrences_merge_step_miss [OF s1 nochain1])
    show "\<not> resolver (p2 @ c) ak" "\<not> resolver (p2 @ c) bk" using pk2 by auto
    show "\<forall>x \<in> set (columns attr). \<not> resolver (p2 @ c) x"
      using nochain2 by (auto simp: resolver_sym)
    show "\<forall>x \<in> set (columns attr). \<not> resolver x ak \<and> \<not> resolver x bk \<longrightarrow> \<not> resolver (p2 @ c) (p1 @ x)"
      using cross by (auto simp: resolver_sym)
  qed
  then show "occurrences m2 (p2 @ c) = occurrences mg (p2 @ c) + 1"
    by (simp add: h2(2) h1(1))
qed

lemma occurrences_two_passes_miss:
  assumes s1: "merge_step mg attr ac1 bc1 ak bk p1 = Inr m1"
    and s2: "merge_step m1 attr ac2 bc2 ak bk p2 = Inr m2"
    and nochain1: "\<forall>c \<in> set (columns attr). \<forall>x. \<not> resolver c (p1 @ x)"
    and nochain2: "\<forall>c \<in> set (columns attr). \<forall>x. \<not> resolver c (p2 @ x)"
    and nokey: "\<not> resolver T ak" "\<not> resolver T bk"
    and noattr: "\<forall>c \<in> set (columns attr). \<not> resolver T c"
    and nopre: "\<forall>c \<in> set (columns attr). \<not> resolver c ak \<and> \<not> resolver c bk
                  \<longrightarrow> \<not> resolver T (p1 @ c) \<and> \<not> resolver T (p2 @ c)"
  shows "occurrences m2 T = occurrences mg T"
proof -
  have "occurrences m2 T = occurrences m1 T"
    by (rule occurrences_merge_step_miss [OF s2 nochain2 nokey noattr]) (use nopre in auto)
  also have "\<dots> = occurrences mg T"
    by (rule occurrences_merge_step_miss [OF s1 nochain1 nokey noattr]) (use nopre in auto)
  finally show ?thesis .
qed

lemma key_prefix_facts:
  "\<not> resolver ''ARPT_NAME'' (''ORIGIN_'' @ x)" "\<not> resolver ''ARPT_NAME'' (''DEST_'' @ x)"
  "\<not> resolver ''DT_LOCAL_QTHR'' (''ORIGIN_'' @ x)" "\<not> resolver ''DT_LOCAL_QTHR'' (''DEST_'' @ x)"
  "\<not> resolver ''DT_LOCAL_HR'' (''ORIGIN_'' @ x)" "\<not> resolver ''DT_LOCAL_HR'' (''DEST_'' @ x)"
  "\<not> resolver ''DT_LOCAL_QTHR'' ''ARPT_NAME''" "\<not> resolver ''DT_LOCAL_HR'' ''ARPT_NAME''"
  "\<not> resolver ''DT_LOCAL_HR'' ''DT_LOCAL_QTHR''"
  by (simp_all add: resolver_def fold_case_def upper_char_simps)

lemma prefixed_not_removed:
  assumes "\<not> resolver c ''DT_LOCAL_QTHR''" "\<not> resolver c ''DT_LOCAL_HR''"
  shows "\<not> list_ex (resolver (''ORIGIN_'' @ c)) (ad_remove_cols @ od_remove_cols)"
    and "\<not> list_ex (resolver (''DEST_'' @ c)) (ad_remove_cols @ od_remove_cols)"
  using assms
  by (simp_all add: ad_remove_cols_eq od_remove_cols_eq resolver_def fold_case_def upper_char_simps)

lemma prefixed_bucket_removed:
  "list_ex (resolver (''ORIGIN_'' @ ''DT_LOCAL_QTHR'')) (ad_remove_cols @ od_remove_cols)"
  "list_ex (resolver (''ORIGIN_'' @ ''DT_LOCAL_HR'')) (ad_remove_cols @ od_remove_cols)"
  "list_ex (resolver (''DEST_'' @ ''DT_LOCAL_QTHR'')) (ad_remove_cols @ od_remove_cols)"
  "list_ex (resolver (''DEST_'' @ ''DT_LOCAL_HR'')) (ad_remove_cols @ od_remove_cols)"
  by (simp_all add: od_remove_cols_eq resolver_def)

lemma occurrences_clean_columns:
  assumes "clean_columns mg d = Inr out"
  shows "occurrences out T =
           (if list_ex (resolver T) (ad_remove_cols @ od_remove_cols) then 0 else occurrences mg T)"
proof -
  from assms obtain filled where
    "fillna mg (arpt_demand_attr_cols d) = Inr filled"
    "out = drop_cols filled (ad_remove_cols @ od_remove_cols)"
    by (rule clean_columns_Inr)
  then show ?thesis
    by (simp add: occurrences_drop_cols occurrences_fillna)
qed

lemma merge_step_key_column:
  assumes "merge_step mg attr ac bc ak bk p = Inr out"
  shows "\<exists>c \<in> set (columns attr). resolver c ak"
proof -
  from assms obtain b where "col attr ak = Inr b" by (rule merge_step_Inr)
  then show ?thesis by (rule col_Inr_column)
qed

section \<open>Tables column by column\<close>

text \<open>A table column by column: each column with its name, its type and its cells from the
  first row to the last.\<close>

definition column_data :: "dataframe \<Rightarrow> ((string \<times> dtype) \<times> val list) list" where
  "column_data df =
     map (\<lambda>i. (schema df ! i, map (\<lambda>r. cell r i) (rows df))) [0..<length (schema df)]"

lemma wf_df_iff: "wf_df df \<longleftrightarrow> (\<forall>r \<in> set (rows df). length r = length (schema df))"
  by (simp add: wf_df_def list_all_iff)

lemma select_mask_snoc:
  "length keep = length xs \<Longrightarrow>
     select_mask (keep @ [k]) (xs @ [x]) = select_mask keep xs @ (if k then [x] else [])"
  by (simp add: select_mask_def)

lemma select_mask_append:
  "length k1 = length xs \<Longrightarrow>
     select_mask (k1 @ k2) (xs @ ys) = select_mask k1 xs @ select_mask k2 ys"
  by (simp add: select_mask_def)

lemma select_mask_positions:
  "length r = length xs \<Longrightarrow>
     select_mask (map P xs) r = map (\<lambda>i. r ! i) [i \<leftarrow> [0..<length xs]. P (xs ! i)]"
proof (induction xs arbitrary: r rule: rev_induct)
  case Nil
  then show ?case by (simp add: select_mask_def)
next
  case (snoc x xs)
  then obtain r' v where r: "r = r' @ [v]" "length r' = length xs"
    by (cases r rule: rev_cases) auto
  let ?pos = "[i \<leftarrow> [0..<length xs]. P (xs ! i)]"
  have 1: "[i \<leftarrow> [0..<length xs]. P ((xs @ [x]) ! i)] = ?pos"
    by (rule filter_cong) (auto simp: nth_append)
  have 2: "map (\<lambda>i. (r' @ [v]) ! i) ?pos = map (\<lambda>i. r' ! i) ?pos"
    using r(2) by (intro map_cong) (auto simp: nth_append)
  have 3: "(r' @ [v]) ! length xs = v"
    using r(2) by (metis nth_append_length)
  have "select_mask (map P (xs @ [x])) r = select_mask (map P xs) r' @ (if P x then [v] else [])"
    using r(2) by (simp add: r(1) select_mask_snoc)
  also have "\<dots> = map (\<lambda>i. r' ! i) ?pos @ (if P x then [v] else [])"
    using r(2) by (simp add: snoc.IH)
  also have "\<dots> = map (\<lambda>i. r ! i) [i \<leftarrow> [0..<length (xs @ [x])]. P ((xs @ [x]) ! i)]"
    unfolding r(1) by (simp add: 1 2 3)
  finally show ?case .
qed

lemma length_select_mask:
  "length r = length keep \<Longrightarrow> length (select_mask keep r) = length (filter id keep)"
proof (induction keep arbitrary: r)
  case Nil
  then show ?case by (simp add: select_mask_def)
next
  case (Cons k ks)
  then obtain v r' where "r = v # r'" by (cases r) auto
  with Cons show ?case by (cases k) (auto simp: select_mask_def)
qed

lemma wf_df_drop_cols: "wf_df df \<Longrightarrow> wf_df (drop_cols df ns)"
proof -
  assume wf: "wf_df df"
  let ?keep = "map (\<lambda>(n, t). \<not> list_ex (resolver n) ns) (schema df)"
  have "length (select_mask ?keep r) = length (select_mask ?keep (schema df))"
    if "r \<in> set (rows df)" for r
    using wf that by (simp add: wf_df_iff length_select_mask)
  then show ?thesis
    by (simp add: wf_df_iff drop_cols_def Let_def)
qed

lemma wf_df_withColumnRenamed: "wf_df df \<Longrightarrow> wf_df (withColumnRenamed df a b)"
  by (simp add: wf_df_iff withColumnRenamed_def)

lemma wf_df_add_col_prefix: "wf_df df \<Longrightarrow> wf_df (add_col_prefix df u p ign)"
  by (simp add: wf_df_iff rows_add_col_prefix length_schema_add_col_prefix)

lemma length_join_row:
  assumes "length lr = n" "\<forall>rr \<in> set (rows r). length rr = length (schema r)"
    and "x \<in> set (join_row on r lr)"
  shows "length x = n + length (schema r)"
proof (cases "filter (matches on lr) (rows r)")
  case Nil
  with assms show ?thesis by (simp add: join_row_def)
next
  case (Cons m ms)
  with assms(3) obtain rr where rr: "rr \<in> set (m # ms)" "x = lr @ rr"
    by (auto simp: join_row_def)
  from rr(1) have "rr \<in> set (filter (matches on lr) (rows r))" by (simp only: Cons)
  then have "rr \<in> set (rows r)" by simp
  with assms(1,2) rr(2) show ?thesis by simp
qed

lemma wf_df_join_left:
  assumes "wf_df l" "wf_df r"
  shows "wf_df (join_left l r on)"
  unfolding wf_df_iff
proof
  fix x assume "x \<in> set (rows (join_left l r on))"
  then obtain lr where lr: "lr \<in> set (rows l)" "x \<in> set (join_row on r lr)"
    by (auto simp: join_left_def)
  from lr(1) assms(1) have "length lr = length (schema l)" by (simp add: wf_df_iff)
  from length_join_row [OF this _ lr(2)] assms(2)
  show "length x = length (schema (join_left l r on))"
    by (simp add: wf_df_iff join_left_def)
qed

lemma wf_df_fillna: "fillna df ns = Inr out \<Longrightarrow> wf_df df \<Longrightarrow> wf_df out"
  by (auto simp: fillna_def bindE_eq_Inr wf_df_iff)

lemma wf_df_merge_step:
  assumes "merge_step mg attr ac bc ak bk p = Inr out" "wf_df mg" "wf_df attr"
  shows "wf_df out"
proof -
  from assms(1) obtain a b c d where
    "out = add_col_prefix (drop_cols (join_left mg attr [(a, b), (c, d)]) [ak, bk])
             (columns attr) p [ak, bk]"
    by (rule merge_step_Inr)
  then show ?thesis
    using assms(2,3) by (simp add: wf_df_add_col_prefix wf_df_drop_cols wf_df_join_left)
qed

lemma wf_df_merge_tables:
  assumes "merge_tables f d w = Inr mg" "wf_df f" "wf_df d" "wf_df w"
  shows "wf_df mg"
proof -
  from assms(1) obtain mg1 mg2 mg3 where s:
    "merge_step f d ''ORIGIN'' ''DEP_TIME_DT_LOCAL_QTHR'' ''ARPT_NAME'' ''DT_LOCAL_QTHR'' ''ORIGIN_'' = Inr mg1"
    "merge_step mg1 d ''DEST'' ''ARR_TIME_DT_LOCAL_QTHR'' ''ARPT_NAME'' ''DT_LOCAL_QTHR'' ''DEST_'' = Inr mg2"
    "merge_step mg2 w ''ORIGIN'' ''DEP_TIME_DT_LOCAL_HR'' ''ARPT_NAME'' ''DT_LOCAL_HR'' ''ORIGIN_'' = Inr mg3"
    "merge_step mg3 w ''DEST'' ''ARR_TIME_DT_LOCAL_HR'' ''ARPT_NAME'' ''DT_LOCAL_HR'' ''DEST_'' = Inr mg"
    by (rule merge_tables_Inr)
  from wf_df_merge_step [OF s(1) assms(2,3)] have "wf_df mg1" .
  from wf_df_merge_step [OF s(2) this assms(3)] have "wf_df mg2" .
  from wf_df_merge_step [OF s(3) this assms(4)] have "wf_df mg3" .
  from wf_df_merge_step [OF s(4) this assms(4)] show ?thesis .
qed

lemma wf_df_load: "wf_df df \<Longrightarrow> wf_df (load_attr df)" "wf_df df \<Longrightarrow> wf_df (load_flights df)"
  by (simp_all add: load_attr_def load_flights_def wf_df_drop_cols)

text \<open>Dropping columns removes them from the column view and leaves the others as they are.\<close>

lemma column_data_drop_cols:
  assumes "wf_df df"
  shows "column_data (drop_cols df ns) =
           [x \<leftarrow> column_data df. \<not> list_ex (resolver (fst (fst x))) ns]"
proof -
  define P :: "string \<times> dtype \<Rightarrow> bool" where "P = (\<lambda>c. \<not> list_ex (resolver (fst c)) ns)"
  define pos where "pos = [i \<leftarrow> [0..<length (schema df)]. P (schema df ! i)]"
  define g where "g = (\<lambda>i. (schema df ! i, map (\<lambda>r. cell r i) (rows df)))"
  have keep: "map (\<lambda>(n, t). \<not> list_ex (resolver n) ns) (schema df) = map P (schema df)"
    by (simp add: P_def case_prod_unfold)
  have sch: "schema (drop_cols df ns) = map (\<lambda>i. schema df ! i) pos"
    unfolding drop_cols_def Let_def keep pos_def by (simp add: select_mask_positions)
  have rws: "rows (drop_cols df ns) = map (\<lambda>r. map (\<lambda>i. r ! i) pos) (rows df)"
    unfolding drop_cols_def Let_def keep pos_def
    using assms by (simp add: select_mask_positions wf_df_iff)
  have pos_lt: "\<And>i. i \<in> set pos \<Longrightarrow> i < length (schema df)"
    by (simp add: pos_def)
  have col: "(map (\<lambda>i. schema df ! i) pos ! j,
               map (\<lambda>r. cell r j) (map (\<lambda>r. map (\<lambda>i. r ! i) pos) (rows df))) = g (pos ! j)"
    if j: "j < length pos" for j
  proof -
    have lt: "pos ! j < length (schema df)" using pos_lt j by simp
    have "cell (map (\<lambda>i. r ! i) pos) j = cell r (pos ! j)" if "r \<in> set (rows df)" for r
      using j lt assms that by (simp add: cell_def wf_df_iff)
    then have "map (\<lambda>r. cell r j) (map (\<lambda>r. map (\<lambda>i. r ! i) pos) (rows df))
             = map (\<lambda>r. cell r (pos ! j)) (rows df)"
      by (simp add: comp_def)
    then show ?thesis using j by (simp add: g_def)
  qed
  have "column_data (drop_cols df ns) = map (\<lambda>j. g (pos ! j)) [0..<length pos]"
    unfolding column_data_def sch rws
  proof (rule map_cong)
    show "[0..<length (map (\<lambda>i. schema df ! i) pos)] = [0..<length pos]" by simp
    fix j assume "j \<in> set [0..<length pos]"
    then have "j < length pos" by simp
    then show "(map (\<lambda>i. schema df ! i) pos ! j,
                 map (\<lambda>r. cell r j) (map (\<lambda>r. map (\<lambda>i. r ! i) pos) (rows df))) = g (pos ! j)"
      by (rule col)
  qed
  also have "\<dots> = map g (map (\<lambda>j. pos ! j) [0..<length pos])"
    by (simp add: comp_def)
  also have "\<dots> = map g pos"
    by (simp only: map_nth)
  also have "\<dots> = [x \<leftarrow> map g [0..<length (schema df)]. P (fst x)]"
    by (simp add: filter_map comp_def pos_def g_def)
  also have "\<dots> = [x \<leftarrow> column_data df. \<not> list_ex (resolver (fst (fst x))) ns]"
    by (simp add: column_data_def g_def P_def)
  finally show ?thesis .
qed

text \<open>The positions that the names of a list resolve to.\<close>

lemma col_Inr_positions:
  assumes "col df n = Inr i"
  shows "{j. j < length (schema df) \<and> resolver (fst (schema df ! j)) n} = {i}"
proof -
  let ?js = "[j \<leftarrow> [0..<length (schema df)]. resolver (fst (schema df ! j)) n]"
  from assms have "?js = [i]"
    by (auto simp: col_def split: list.splits)
  then have "set ?js = {i}" by simp
  then show ?thesis by auto
qed

lemma cols_Inr_positions:
  "cols df ns = Inr attrs \<Longrightarrow>
     set attrs = {j. j < length (schema df) \<and> list_ex (resolver (fst (schema df ! j))) ns}"
proof (induction ns arbitrary: attrs)
  case Nil
  then show ?case by auto
next
  case (Cons n ns)
  from Cons.prems obtain i js where
    i: "col df n = Inr i" and js: "cols df ns = Inr js" and attrs: "attrs = i # js"
    by (auto simp: bindE_eq_Inr)
  from col_Inr_positions [OF i] Cons.IH [OF js] show ?case
    unfolding attrs by auto
qed


lemma column_data_fillna:
  assumes "fillna df ns = Inr out" "wf_df df"
  shows "column_data out =
     map (\<lambda>x. (fst x, if list_ex (resolver (fst (fst x))) ns \<and> is_numeric (snd (fst x))
                       then map (fill_zero (snd (fst x))) (snd x) else snd x))
       (column_data df)"
proof -
  from assms(1) obtain attrs where attrs: "cols df ns = Inr attrs"
    and out: "out = df\<lparr>rows := map (\<lambda>r. map (\<lambda>i.
              if i \<in> set attrs \<and> i < length (schema df) \<and> is_numeric (snd (schema df ! i))
              then fill_zero (snd (schema df ! i)) (r ! i) else r ! i) [0..<length r]) (rows df)\<rparr>"
    by (auto simp: fillna_def bindE_eq_Inr)
  note pos = cols_Inr_positions [OF attrs]
  have "(schema df ! i,
         map (\<lambda>r. cell r i) (map (\<lambda>r. map (\<lambda>i.
              if i \<in> set attrs \<and> i < length (schema df) \<and> is_numeric (snd (schema df ! i))
              then fill_zero (snd (schema df ! i)) (r ! i) else r ! i) [0..<length r]) (rows df)))
      = (schema df ! i,
         if list_ex (resolver (fst (schema df ! i))) ns \<and> is_numeric (snd (schema df ! i))
         then map (fill_zero (snd (schema df ! i))) (map (\<lambda>r. cell r i) (rows df))
         else map (\<lambda>r. cell r i) (rows df))"
    if i: "i < length (schema df)" for i
  proof -
    have len: "\<And>r. r \<in> set (rows df) \<Longrightarrow> i < length r"
      using assms(2) i by (simp add: wf_df_iff)
    have mem: "i \<in> set attrs \<longleftrightarrow> list_ex (resolver (fst (schema df ! i))) ns"
      using i by (simp add: pos)
    show ?thesis
      using i len by (auto simp: mem cell_def)
  qed
  then show ?thesis
    unfolding out column_data_def by simp
qed

text \<open>The rows of a left join.\<close>

lemma join_row_nonempty: "join_row on r lr \<noteq> []"
  by (simp add: join_row_def split: list.split)

lemma join_row_left_part:
  "x \<in> set (join_row on r lr) \<Longrightarrow> take (length lr) x = lr"
  by (auto simp: join_row_def split: list.splits)


text \<open>An attribute table has unique keys when no two of its rows have the same airport
  and time bucket, both present.\<close>

definition unique_keys :: "dataframe \<Rightarrow> string \<Rightarrow> string \<Rightarrow> bool" where
  "unique_keys attr arpt_key bucket_key =
     (case (col attr arpt_key, col attr bucket_key) of
        (Inr b, Inr d) \<Rightarrow>
          distinct (map (\<lambda>r. (cell r b, cell r d))
                     [r \<leftarrow> rows attr. cell r b \<noteq> Null \<and> cell r d \<noteq> Null])
      | _ \<Rightarrow> True)"

lemma at_most_one_match:
  "distinct (map k (filter Q xs)) \<Longrightarrow> \<forall>x \<in> set xs. P x \<longrightarrow> Q x \<and> k x = v \<Longrightarrow>
     length (filter P xs) \<le> 1"
proof (induction xs)
  case Nil
  then show ?case by simp
next
  case (Cons x xs)
  show ?case
  proof (cases "P x")
    case True
    with Cons.prems have x: "Q x" "k x = v" by auto
    have "\<not> P y" if "y \<in> set xs" for y
    proof
      assume "P y"
      with Cons.prems(2) that have "Q y" "k y = v" by auto
      with that have "v \<in> set (map k (filter Q xs))" by force
      with Cons.prems(1) x show False by auto
    qed
    then have "filter P xs = []" by (simp add: filter_empty_conv)
    with True show ?thesis by simp
  next
    case False
    from Cons.prems(1) have "distinct (map k (filter Q xs))" by (auto split: if_splits)
    from Cons.IH [OF this] Cons.prems(2) False show ?thesis by simp
  qed
qed

lemma matches_keys:
  assumes "matches [(a, b), (c, d)] lr rr"
  shows "cell rr b \<noteq> Null" "cell rr d \<noteq> Null" "(cell rr b, cell rr d) = (cell lr a, cell lr c)"
  using assms by (auto simp: matches_def sql_eq_def)

lemma join_row_unique:
  assumes "distinct (map (\<lambda>r. (cell r b, cell r d))
                     [r \<leftarrow> rows attr. cell r b \<noteq> Null \<and> cell r d \<noteq> Null])"
  shows "\<exists>y. join_row [(a, b), (c, d)] attr lr = [y]"
proof -
  have "length (filter (matches [(a, b), (c, d)] lr) (rows attr)) \<le> 1"
    by (rule at_most_one_match [OF assms, where v = "(cell lr a, cell lr c)"])
      (use matches_keys in blast)
  then show ?thesis
    by (cases "filter (matches [(a, b), (c, d)] lr) (rows attr)")
      (auto simp: join_row_def)
qed

lemma unique_keys_distinct:
  assumes "unique_keys attr ak bk" "col attr ak = Inr b" "col attr bk = Inr d"
  shows "distinct (map (\<lambda>r. (cell r b, cell r d))
                     [r \<leftarrow> rows attr. cell r b \<noteq> Null \<and> cell r d \<noteq> Null])"
  using assms by (simp add: unique_keys_def)

section \<open>The rows of a merge\<close>

text \<open>
  The left table of a merge alone through the drop and the renaming of that merge, and the
  flight table alone through those of the four merges: its rows are the flight rows,
  without the cells of the flight columns that a merge drops for their name.
\<close>

definition left_part :: "dataframe \<Rightarrow> dataframe \<Rightarrow> string \<Rightarrow> string \<Rightarrow> string \<Rightarrow> dataframe" where
  "left_part mg attr arpt_key bucket_key prefix =
     add_col_prefix (drop_cols mg [arpt_key, bucket_key]) (columns attr) prefix
       [arpt_key, bucket_key]"

definition flight_part :: "dataframe \<Rightarrow> dataframe \<Rightarrow> dataframe \<Rightarrow> dataframe" where
  "flight_part nas_flights arpt_demand arpt_weather =
     left_part (left_part (left_part (left_part nas_flights
         arpt_demand ''ARPT_NAME'' ''DT_LOCAL_QTHR'' ''ORIGIN_'')
         arpt_demand ''ARPT_NAME'' ''DT_LOCAL_QTHR'' ''DEST_'')
         arpt_weather ''ARPT_NAME'' ''DT_LOCAL_HR'' ''ORIGIN_'')
         arpt_weather ''ARPT_NAME'' ''DT_LOCAL_HR'' ''DEST_''"

lemma wf_df_left_part: "wf_df mg \<Longrightarrow> wf_df (left_part mg attr ak bk p)"
  by (simp add: left_part_def wf_df_add_col_prefix wf_df_drop_cols)

lemma filter_take:
  "filter P (take m xs) = take (length (filter P (take m xs))) (filter P xs)"
proof -
  have "filter P xs = filter P (take m xs) @ filter P (drop m xs)"
    by (metis append_take_drop_id filter_append)
  then show ?thesis by simp
qed

lemma select_mask_take:
  assumes "length r = length keep"
  shows "select_mask (take m keep) (take m r)
       = take (length (filter id (take m keep))) (select_mask keep r)"
proof -
  have len: "length (take m keep) = length (take m r)" using assms by simp
  have "select_mask keep r = select_mask (take m keep @ drop m keep) (take m r @ drop m r)"
    by simp
  also have "\<dots> = select_mask (take m keep) (take m r) @ select_mask (drop m keep) (drop m r)"
    using len by (rule select_mask_append)
  finally have "select_mask keep r
      = select_mask (take m keep) (take m r) @ select_mask (drop m keep) (drop m r)" .
  moreover have "length (select_mask (take m keep) (take m r)) = length (filter id (take m keep))"
    using len by (simp add: length_select_mask)
  ultimately show ?thesis by simp
qed

lemma mset_concat_replicate_ge:
  assumes "\<forall>x \<in> set xs. 0 < k x"
  shows "mset (map g xs) \<subseteq># mset (concat (map (\<lambda>x. replicate (k x) (g x)) xs))"
  using assms
proof (induction xs)
  case Nil
  then show ?case by simp
next
  case (Cons x xs)
  then obtain j where j: "k x = Suc j" by (cases "k x") auto
  from Cons have "mset (map g xs) \<subseteq># mset (concat (map (\<lambda>x. replicate (k x) (g x)) xs))"
    by simp
  then show ?case
    by (simp add: j) (metis add_mset_add_single mset_subset_eq_add_mset_cancel subset_mset.add_increasing2 mset_subset_eq_add_left union_commute)
qed

lemma concat_replicate_one:
  assumes "\<forall>x \<in> set xs. k x = Suc 0"
  shows "concat (map (\<lambda>x. replicate (k x) (g x)) xs) = map g xs"
  using assms by (induction xs) auto

lemma schema_left_part:
  "schema (left_part mg attr ak bk p) =
     map (\<lambda>c. (renamed p [cc \<leftarrow> columns attr. cc \<notin> set [ak, bk]] (fst c), snd c))
       [c \<leftarrow> schema mg. \<not> list_ex (resolver (fst c)) [ak, bk]]"
  by (simp add: left_part_def schema_add_col_prefix schema_drop_cols)

lemma rows_drop_cols_mask:
  "rows (drop_cols df ns) =
     map (select_mask (map (\<lambda>c. \<not> list_ex (resolver (fst c)) ns) (schema df))) (rows df)"
  by (simp add: drop_cols_def Let_def case_prod_unfold)

lemma rows_left_part:
  "rows (left_part mg attr ak bk p) =
     map (select_mask (map (\<lambda>c. \<not> list_ex (resolver (fst c)) [ak, bk]) (schema mg))) (rows mg)"
  by (simp add: left_part_def rows_add_col_prefix rows_drop_cols_mask)

lemma length_filter_id_map: "length (filter id (map P xs)) = length (filter P xs)"
  by (induction xs) auto

text \<open>
  One merge, cut to the columns that the left table gives: the schema is that of the left
  part, and every row of the left part is there as many times as the join has rows for it,
  at least once, and once when the keys of the attribute table are unique.
\<close>

lemma merge_step_left_schema:
  assumes "merge_step mg attr ac bc ak bk p = Inr out"
  shows "take (length (schema (left_part mg attr ak bk p))) (schema out)
           = schema (left_part mg attr ak bk p)"
  by (simp add: schema_merge_step [OF assms] schema_left_part schema_drop_cols)

lemma merge_step_left_rows:
  assumes step: "merge_step mg attr ac bc ak bk p = Inr out" and wf: "wf_df mg"
  shows "\<exists>k. (\<forall>lr. 0 < k lr) \<and> (unique_keys attr ak bk \<longrightarrow> (\<forall>lr. k lr = Suc 0))
           \<and> map (take (length (schema (left_part mg attr ak bk p)))) (rows out)
               = concat (map (\<lambda>lr. replicate (k lr)
                   (select_mask (map (\<lambda>c. \<not> list_ex (resolver (fst c)) [ak, bk]) (schema mg)) lr))
                   (rows mg))"
proof -
  let ?K = "\<lambda>c :: string \<times> dtype. \<not> list_ex (resolver (fst c)) [ak, bk]"
  let ?kl = "map ?K (schema mg)" and ?kr = "map ?K (schema attr)"
  let ?n = "length (schema (left_part mg attr ak bk p))"
  from step obtain a b c d where
    cb: "col attr ak = Inr b" and cd: "col attr bk = Inr d"
    and out: "out = add_col_prefix (drop_cols (join_left mg attr [(a, b), (c, d)]) [ak, bk])
             (columns attr) p [ak, bk]"
    by (rule merge_step_Inr)
  let ?on = "[(a, b), (c, d)]"
  have n: "?n = length (filter id ?kl)"
    by (simp add: schema_left_part length_filter_id_map)
  have one: "map (\<lambda>x. take ?n (select_mask (?kl @ ?kr) x)) (join_row ?on attr lr)
           = replicate (length (join_row ?on attr lr)) (select_mask ?kl lr)"
    if lr: "lr \<in> set (rows mg)" for lr
  proof -
    have len: "length ?kl = length lr" using wf lr by (simp add: wf_df_iff)
    have "take ?n (select_mask (?kl @ ?kr) x) = select_mask ?kl lr"
      if "x \<in> set (join_row ?on attr lr)" for x
    proof -
      from join_row_left_part [OF that] have "x = lr @ drop (length lr) x"
        by (metis append_take_drop_id)
      then have "select_mask (?kl @ ?kr) x = select_mask (?kl @ ?kr) (lr @ drop (length lr) x)"
        by simp
      also have "\<dots> = select_mask ?kl lr @ select_mask ?kr (drop (length lr) x)"
        using len by (rule select_mask_append)
      finally have "select_mask (?kl @ ?kr) x
          = select_mask ?kl lr @ select_mask ?kr (drop (length lr) x)" .
      moreover have "length (select_mask ?kl lr) = ?n"
        using len by (simp only: n length_select_mask)
      ultimately show ?thesis by simp
    qed
    then show ?thesis
      by (simp add: map_replicate_const [symmetric] cong: map_cong)
  qed
  have rows: "map (take ?n) (rows out)
      = concat (map (\<lambda>lr. replicate (length (join_row ?on attr lr)) (select_mask ?kl lr)) (rows mg))"
  proof -
    have "rows out = map (select_mask (?kl @ ?kr)) (concat (map (join_row ?on attr) (rows mg)))"
      by (simp add: out rows_add_col_prefix rows_drop_cols_mask schema_join_left join_left_def)
    then have "map (take ?n) (rows out)
        = concat (map (\<lambda>lr. map (\<lambda>x. take ?n (select_mask (?kl @ ?kr) x)) (join_row ?on attr lr))
            (rows mg))"
      by (simp add: map_concat comp_def)
    also have "\<dots> = concat (map (\<lambda>lr. replicate (length (join_row ?on attr lr))
                         (select_mask ?kl lr)) (rows mg))"
      using one by (simp cong: map_cong)
    finally show ?thesis .
  qed
  have pos: "0 < length (join_row ?on attr lr)" for lr
    using join_row_nonempty [of ?on attr lr] by simp
  have uniq: "length (join_row ?on attr lr) = Suc 0" if "unique_keys attr ak bk" for lr
    using join_row_unique [OF unique_keys_distinct [OF that cb cd], of a c lr] by auto
  from rows pos uniq
  show "\<exists>k. (\<forall>lr. 0 < k lr) \<and> (unique_keys attr ak bk \<longrightarrow> (\<forall>lr. k lr = Suc 0))
           \<and> map (take ?n) (rows out)
               = concat (map (\<lambda>lr. replicate (k lr) (select_mask ?kl lr)) (rows mg))"
    by (intro exI [of _ "\<lambda>lr. length (join_row ?on attr lr)"]) simp
qed

text \<open>
  The same for a table \<open>fp\<close> that the left table of the merge starts with: the outcome of
  the merge starts with the left part of \<open>fp\<close>.
\<close>

lemma merge_step_prefix_schema:
  assumes step: "merge_step mg attr ac bc ak bk p = Inr out"
    and sch: "take (length (schema fp)) (schema mg) = schema fp"
  shows "take (length (schema (left_part fp attr ak bk p))) (schema out)
           = schema (left_part fp attr ak bk p)"
    and "length (schema (left_part fp attr ak bk p)) \<le> length (schema (left_part mg attr ak bk p))"
    and "length (schema (left_part fp attr ak bk p))
           = length (filter id (take (length (schema fp))
               (map (\<lambda>c. \<not> list_ex (resolver (fst c)) [ak, bk]) (schema mg))))"
proof -
  let ?K = "\<lambda>c :: string \<times> dtype. \<not> list_ex (resolver (fst c)) [ak, bk]"
  let ?R = "\<lambda>c :: string \<times> dtype. (renamed p [cc \<leftarrow> columns attr. cc \<notin> set [ak, bk]] (fst c), snd c)"
  let ?m = "length (schema fp)"
  let ?L = "left_part mg attr ak bk p" and ?F = "left_part fp attr ak bk p"
  let ?n = "length (schema ?L)" and ?m' = "length (schema ?F)"
  have sL: "schema ?L = map ?R (filter ?K (schema mg))" by (rule schema_left_part)
  have "schema ?F = map ?R (filter ?K (schema fp))" by (rule schema_left_part)
  then have sF0: "schema ?F = map ?R (filter ?K (take ?m (schema mg)))" by (simp only: sch)
  have m': "?m' = length (filter ?K (take ?m (schema mg)))"
    by (simp only: sF0 length_map)
  have n: "?n = length (filter ?K (schema mg))"
    by (simp only: sL length_map)
  have le: "?m' \<le> ?n"
  proof -
    have "filter ?K (schema mg) = filter ?K (take ?m (schema mg)) @ filter ?K (drop ?m (schema mg))"
      by (metis append_take_drop_id filter_append)
    then have "length (filter ?K (take ?m (schema mg))) \<le> length (filter ?K (schema mg))"
      by (metis le_add1 length_append)
    then show ?thesis by (simp only: m' n)
  qed
  have "filter ?K (take ?m (schema mg)) = take ?m' (filter ?K (schema mg))"
    by (subst filter_take) (simp only: m')
  then have "schema ?F = take ?m' (schema ?L)"
    by (simp only: sF0 sL take_map)
  also have "\<dots> = take ?m' (take ?n (schema out))"
    by (simp only: merge_step_left_schema [OF step])
  also have "\<dots> = take ?m' (schema out)"
    using le by (simp only: take_take min_absorb1)
  finally show "take ?m' (schema out) = schema ?F" by (rule sym)
  show "?m' \<le> ?n" by (rule le)
  show "?m' = length (filter id (take ?m (map ?K (schema mg))))"
    by (simp only: m' take_map length_filter_id_map)
qed

lemma merge_step_prefix_rows:
  assumes step: "merge_step mg attr ac bc ak bk p = Inr out"
    and wf: "wf_df mg"
    and sch: "take (length (schema fp)) (schema mg) = schema fp"
  shows "mset (rows fp) \<subseteq># mset (map (take (length (schema fp))) (rows mg)) \<Longrightarrow>
           mset (rows (left_part fp attr ak bk p))
             \<subseteq># mset (map (take (length (schema (left_part fp attr ak bk p)))) (rows out))"
    and "unique_keys attr ak bk \<Longrightarrow>
           mset (map (take (length (schema fp))) (rows mg)) = mset (rows fp) \<Longrightarrow>
           mset (map (take (length (schema (left_part fp attr ak bk p)))) (rows out))
             = mset (rows (left_part fp attr ak bk p))"
proof -
  let ?K = "\<lambda>c :: string \<times> dtype. \<not> list_ex (resolver (fst c)) [ak, bk]"
  let ?kl = "map ?K (schema mg)"
  let ?m = "length (schema fp)"
  let ?L = "left_part mg attr ak bk p" and ?F = "left_part fp attr ak bk p"
  let ?n = "length (schema ?L)" and ?m' = "length (schema ?F)"
  let ?g = "select_mask (map ?K (schema fp))"
    note le = merge_step_prefix_schema(2) [OF step sch]
  note m'_mask = merge_step_prefix_schema(3) [OF step sch]
  from merge_step_left_rows [OF step wf] obtain k where
    pos: "\<forall>lr. 0 < k lr" and uniq: "unique_keys attr ak bk \<longrightarrow> (\<forall>lr. k lr = Suc 0)"
    and rows: "map (take ?n) (rows out)
                 = concat (map (\<lambda>lr. replicate (k lr) (select_mask ?kl lr)) (rows mg))"
    by blast
  have cut: "take ?m' (select_mask ?kl lr) = ?g (take ?m lr)" if "lr \<in> set (rows mg)" for lr
  proof -
    have len: "length lr = length ?kl" using wf that by (simp add: wf_df_iff)
    have "map ?K (schema fp) = take ?m ?kl"
      by (simp add: take_map sch)
    moreover have "?m' = length (filter id (take ?m ?kl))"
      by (rule m'_mask)
    ultimately show ?thesis
      using select_mask_take [OF len, of ?m] by simp
  qed
  have rows': "map (take ?m') (rows out)
      = concat (map (\<lambda>lr. replicate (k lr) (?g (take ?m lr))) (rows mg))"
  proof -
    have "map (take ?m') (rows out) = map (take ?m') (map (take ?n) (rows out))"
      using le by (simp only: map_map comp_def take_take min_absorb1)
    also have "\<dots> = concat (map (\<lambda>lr. replicate (k lr) (take ?m' (select_mask ?kl lr))) (rows mg))"
      by (simp only: rows) (simp add: map_concat comp_def)
    also have "\<dots> = concat (map (\<lambda>lr. replicate (k lr) (?g (take ?m lr))) (rows mg))"
      using cut by (simp cong: map_cong)
    finally show ?thesis .
  qed
  have F: "rows ?F = map ?g (rows fp)" by (simp add: rows_left_part)
  {
    assume sub: "mset (rows fp) \<subseteq># mset (map (take ?m) (rows mg))"
    have "mset (rows ?F) = image_mset ?g (mset (rows fp))" by (simp add: F)
    also have "\<dots> \<subseteq># image_mset ?g (mset (map (take ?m) (rows mg)))"
      using sub by (rule image_mset_subseteq_mono)
    also have "\<dots> = mset (map (\<lambda>lr. ?g (take ?m lr)) (rows mg))"
      by (simp add: multiset.map_comp comp_def)
    also have "\<dots> \<subseteq># mset (map (take ?m') (rows out))"
      unfolding rows' using pos by (intro mset_concat_replicate_ge) simp
    finally show "mset (rows ?F) \<subseteq># mset (map (take ?m') (rows out))" .
  }
  {
    assume u: "unique_keys attr ak bk"
      and eq: "mset (map (take ?m) (rows mg)) = mset (rows fp)"
    from u uniq have "\<forall>lr \<in> set (rows mg). k lr = Suc 0" by simp
    then have "map (take ?m') (rows out) = map (\<lambda>lr. ?g (take ?m lr)) (rows mg)"
      unfolding rows' by (rule concat_replicate_one)
    then have "mset (map (take ?m') (rows out)) = image_mset ?g (mset (map (take ?m) (rows mg)))"
      by (simp add: multiset.map_comp comp_def)
    also have "\<dots> = mset (rows ?F)" using eq by (simp add: F)
    finally show "mset (map (take ?m') (rows out)) = mset (rows ?F)" .
  }
qed

text \<open>
  A table none of whose columns has the name of a join key. The merges drop the key columns
  by name, so they drop no column of such a table.
\<close>

definition no_key_columns :: "dataframe \<Rightarrow> bool" where
  "no_key_columns df =
     list_all (\<lambda>n. \<not> list_ex (resolver n) [''ARPT_NAME'', ''DT_LOCAL_QTHR'', ''DT_LOCAL_HR''])
       (columns df)"

text \<open>
  The two sides of a join condition have the same type. Spark compares operands of
  different types after a cast, which \<open>sql_eq\<close> does not model: what is said below about
  which rows match is said for key columns of one type.
\<close>

definition same_type :: "dataframe \<Rightarrow> string \<Rightarrow> dataframe \<Rightarrow> string \<Rightarrow> bool" where
  "same_type l a r b =
     (case (col l a, col r b) of
        (Inr i, Inr j) \<Rightarrow> snd (schema l ! i) = snd (schema r ! j)
      | _ \<Rightarrow> False)"

definition key_types_agree :: "dataframe \<Rightarrow> dataframe \<Rightarrow> dataframe \<Rightarrow> bool" where
  "key_types_agree nas_flights arpt_demand arpt_weather =
     (same_type nas_flights ''ORIGIN'' arpt_demand ''ARPT_NAME''
      \<and> same_type nas_flights ''DEP_TIME_DT_LOCAL_QTHR'' arpt_demand ''DT_LOCAL_QTHR''
      \<and> same_type nas_flights ''DEST'' arpt_demand ''ARPT_NAME''
      \<and> same_type nas_flights ''ARR_TIME_DT_LOCAL_QTHR'' arpt_demand ''DT_LOCAL_QTHR''
      \<and> same_type nas_flights ''ORIGIN'' arpt_weather ''ARPT_NAME''
      \<and> same_type nas_flights ''DEP_TIME_DT_LOCAL_HR'' arpt_weather ''DT_LOCAL_HR''
      \<and> same_type nas_flights ''DEST'' arpt_weather ''ARPT_NAME''
      \<and> same_type nas_flights ''ARR_TIME_DT_LOCAL_HR'' arpt_weather ''DT_LOCAL_HR'')"

lemma no_key_columns_iff:
  "no_key_columns df \<longleftrightarrow>
     (\<forall>c \<in> set (schema df). \<not> resolver (fst c) ''ARPT_NAME'' \<and> \<not> resolver (fst c) ''DT_LOCAL_QTHR''
        \<and> \<not> resolver (fst c) ''DT_LOCAL_HR'')"
  by (auto simp: no_key_columns_def list_all_iff columns_def)

lemma renamed_no_key:
  assumes "\<not> resolver n k" "p = ''ORIGIN_'' \<or> p = ''DEST_''"
    "k = ''ARPT_NAME'' \<or> k = ''DT_LOCAL_QTHR'' \<or> k = ''DT_LOCAL_HR''"
  shows "\<not> resolver (renamed p cs n) k"
proof (cases "\<exists>c \<in> set cs. resolver n c")
  case True
  from renamed_has_prefix [OF this, of p] obtain cc where "renamed p cs n = p @ cc" by blast
  with assms(2,3) show ?thesis
    using prefix_key_facts(1-6) [of cc] by auto
next
  case False
  then have "renamed p cs n = n" by (intro renamed_other) simp
  with assms(1) show ?thesis by simp
qed

lemma select_mask_all:
  "length r = length xs \<Longrightarrow> \<forall>x \<in> set xs. P x \<Longrightarrow> select_mask (map P xs) r = r"
proof (induction xs arbitrary: r)
  case Nil
  then show ?case by (simp add: select_mask_def)
next
  case (Cons x xs)
  then obtain v r' where "r = v # r'" by (cases r) auto
  with Cons show ?case by (simp add: select_mask_def)
qed

lemma left_part_no_key:
  assumes nk: "no_key_columns mg"
    and keys: "ak = ''ARPT_NAME''" "bk = ''DT_LOCAL_QTHR'' \<or> bk = ''DT_LOCAL_HR''"
    and p: "p = ''ORIGIN_'' \<or> p = ''DEST_''"
  shows "schema (left_part mg attr ak bk p) =
           map (\<lambda>c. (renamed p [cc \<leftarrow> columns attr. cc \<notin> set [ak, bk]] (fst c), snd c)) (schema mg)"
    and "no_key_columns (left_part mg attr ak bk p)"
    and "wf_df mg \<Longrightarrow> rows (left_part mg attr ak bk p) = rows mg"
proof -
  have keep: "\<forall>c \<in> set (schema mg). \<not> list_ex (resolver (fst c)) [ak, bk]"
    using nk keys by (auto simp: no_key_columns_iff)
  then have "[c \<leftarrow> schema mg. \<not> list_ex (resolver (fst c)) [ak, bk]] = schema mg"
    by (simp only: filter_True)
  then show s: "schema (left_part mg attr ak bk p) =
           map (\<lambda>c. (renamed p [cc \<leftarrow> columns attr. cc \<notin> set [ak, bk]] (fst c), snd c)) (schema mg)"
    by (simp only: schema_left_part)
  show "no_key_columns (left_part mg attr ak bk p)"
    unfolding no_key_columns_iff s using nk p
    by (auto simp: no_key_columns_iff renamed_no_key)
  assume wf: "wf_df mg"
  have "select_mask (map (\<lambda>c. \<not> list_ex (resolver (fst c)) [ak, bk]) (schema mg)) r = r"
    if "r \<in> set (rows mg)" for r
    using wf that keep by (intro select_mask_all) (simp_all add: wf_df_iff)
  then show "rows (left_part mg attr ak bk p) = rows mg"
    by (simp only: rows_left_part map_idI)
qed

lemma flight_part_no_key:
  assumes "no_key_columns f" "wf_df f"
  shows "rows (flight_part f d w) = rows f"
    and "length (schema (flight_part f d w)) = length (schema f)"
    and "map snd (schema (flight_part f d w)) = map snd (schema f)"
proof -
  let ?F1 = "left_part f d ''ARPT_NAME'' ''DT_LOCAL_QTHR'' ''ORIGIN_''"
  let ?F2 = "left_part ?F1 d ''ARPT_NAME'' ''DT_LOCAL_QTHR'' ''DEST_''"
  let ?F3 = "left_part ?F2 w ''ARPT_NAME'' ''DT_LOCAL_HR'' ''ORIGIN_''"
  note l1 = left_part_no_key [OF assms(1), of "''ARPT_NAME''" "''DT_LOCAL_QTHR''" "''ORIGIN_''" d]
  note l2 = left_part_no_key [OF l1(2), of "''ARPT_NAME''" "''DT_LOCAL_QTHR''" "''DEST_''" d]
  note l3 = left_part_no_key [OF l2(2), of "''ARPT_NAME''" "''DT_LOCAL_HR''" "''ORIGIN_''" w]
  note l4 = left_part_no_key [OF l3(2), of "''ARPT_NAME''" "''DT_LOCAL_HR''" "''DEST_''" w]
  have wf1: "wf_df ?F1" using assms(2) by (rule wf_df_left_part)
  then have wf2: "wf_df ?F2" by (rule wf_df_left_part)
  then have wf3: "wf_df ?F3" by (rule wf_df_left_part)
  show "rows (flight_part f d w) = rows f"
    unfolding flight_part_def
    using l1(3) l2(3) l3(3) l4(3) assms(2) wf1 wf2 wf3 by simp
  show "length (schema (flight_part f d w)) = length (schema f)"
    unfolding flight_part_def
    using l1(1) l2(1) l3(1) l4(1) by simp
  show "map snd (schema (flight_part f d w)) = map snd (schema f)"
    unfolding flight_part_def
    using l1(1) l2(1) l3(1) l4(1) by (simp add: comp_def)
qed

text \<open>The merged table starts with the flight part.\<close>

lemma merge_tables_flight_part:
  assumes run: "merge_tables f d w = Inr mg"
    and wf: "wf_df f" "wf_df d" "wf_df w"
  shows "take (length (schema (flight_part f d w))) (schema mg) = schema (flight_part f d w)"
    and "mset (rows (flight_part f d w))
           \<subseteq># mset (map (take (length (schema (flight_part f d w)))) (rows mg))"
    and "unique_keys d ''ARPT_NAME'' ''DT_LOCAL_QTHR'' \<Longrightarrow> unique_keys w ''ARPT_NAME'' ''DT_LOCAL_HR'' \<Longrightarrow>
           mset (map (take (length (schema (flight_part f d w)))) (rows mg))
             = mset (rows (flight_part f d w))"
proof -
  let ?F1 = "left_part f d ''ARPT_NAME'' ''DT_LOCAL_QTHR'' ''ORIGIN_''"
  let ?F2 = "left_part ?F1 d ''ARPT_NAME'' ''DT_LOCAL_QTHR'' ''DEST_''"
  let ?F3 = "left_part ?F2 w ''ARPT_NAME'' ''DT_LOCAL_HR'' ''ORIGIN_''"
  let ?F4 = "left_part ?F3 w ''ARPT_NAME'' ''DT_LOCAL_HR'' ''DEST_''"
  from run obtain mg1 mg2 mg3 where s:
    "merge_step f d ''ORIGIN'' ''DEP_TIME_DT_LOCAL_QTHR'' ''ARPT_NAME'' ''DT_LOCAL_QTHR'' ''ORIGIN_'' = Inr mg1"
    "merge_step mg1 d ''DEST'' ''ARR_TIME_DT_LOCAL_QTHR'' ''ARPT_NAME'' ''DT_LOCAL_QTHR'' ''DEST_'' = Inr mg2"
    "merge_step mg2 w ''ORIGIN'' ''DEP_TIME_DT_LOCAL_HR'' ''ARPT_NAME'' ''DT_LOCAL_HR'' ''ORIGIN_'' = Inr mg3"
    "merge_step mg3 w ''DEST'' ''ARR_TIME_DT_LOCAL_HR'' ''ARPT_NAME'' ''DT_LOCAL_HR'' ''DEST_'' = Inr mg"
    by (rule merge_tables_Inr)
  note wf1 = wf_df_merge_step [OF s(1) wf(1,2)]
  note wf2 = wf_df_merge_step [OF s(2) wf1 wf(2)]
  note wf3 = wf_df_merge_step [OF s(3) wf2 wf(3)]
  have s0: "take (length (schema f)) (schema f) = schema f" by simp
  have r0: "map (take (length (schema f))) (rows f) = rows f"
    using wf(1) by (simp add: wf_df_iff map_idI)
  note s1 = merge_step_prefix_schema(1) [OF s(1) s0]
  note s2 = merge_step_prefix_schema(1) [OF s(2) s1]
  note s3 = merge_step_prefix_schema(1) [OF s(3) s2]
  note s4 = merge_step_prefix_schema(1) [OF s(4) s3]
  show "take (length (schema (flight_part f d w))) (schema mg) = schema (flight_part f d w)"
    unfolding flight_part_def by (rule s4)
  have "mset (rows f) \<subseteq># mset (map (take (length (schema f))) (rows f))"
    by (simp only: r0 subset_mset.order_refl)
  note merge_step_prefix_rows(1) [OF s(1) wf(1) s0 this]
  note merge_step_prefix_rows(1) [OF s(2) wf1 s1 this]
  note merge_step_prefix_rows(1) [OF s(3) wf2 s2 this]
  note merge_step_prefix_rows(1) [OF s(4) wf3 s3 this]
  then show "mset (rows (flight_part f d w))
           \<subseteq># mset (map (take (length (schema (flight_part f d w)))) (rows mg))"
    unfolding flight_part_def .
  assume u: "unique_keys d ''ARPT_NAME'' ''DT_LOCAL_QTHR''" "unique_keys w ''ARPT_NAME'' ''DT_LOCAL_HR''"
  have "mset (map (take (length (schema f))) (rows f)) = mset (rows f)"
    by (simp only: r0)
  note merge_step_prefix_rows(2) [OF s(1) wf(1) s0 u(1) this]
  note merge_step_prefix_rows(2) [OF s(2) wf1 s1 u(1) this]
  note merge_step_prefix_rows(2) [OF s(3) wf2 s2 u(2) this]
  note merge_step_prefix_rows(2) [OF s(4) wf3 s3 u(2) this]
  then show "mset (map (take (length (schema (flight_part f d w)))) (rows mg))
             = mset (rows (flight_part f d w))"
    unfolding flight_part_def .
qed

lemma length_rows_left_part: "length (rows (left_part mg attr ak bk p)) = length (rows mg)"
  by (simp add: rows_left_part)

lemma length_rows_flight_part: "length (rows (flight_part f d w)) = length (rows f)"
  by (simp add: flight_part_def length_rows_left_part)



subsection \<open>Flight rows without an attribute row\<close>










subsection \<open>The small run\<close>

lemma ex_no_key_columns: "no_key_columns ex_nas_flights"
  by (simp add: no_key_columns_def columns_def ex_nas_flights_def resolver_def fold_case_def
      upper_char_simps)

lemma ex_key_types_agree: "key_types_agree ex_nas_flights ex_arpt_demand ex_arpt_weather"
  by (simp add: key_types_agree_def same_type_def eval_defs ex_nas_flights_def ex_arpt_demand_def
      ex_arpt_weather_def)


lemma ex_unique_keys:
  "unique_keys ex_arpt_demand ''ARPT_NAME'' ''DT_LOCAL_QTHR''"
  "unique_keys ex_arpt_weather ''ARPT_NAME'' ''DT_LOCAL_HR''"
  by (simp_all add: unique_keys_def eval_defs ex_arpt_demand_def ex_arpt_weather_def)

section \<open>The loader\<close>



section \<open>The prefix renaming\<close>













section \<open>The schema of the output\<close>

text \<open>
  C4 (amended). Suppose the demand table and the weather table each have column names that
  differ pairwise (ignoring case) and do not start with ORIGIN_ or DEST_, the two tables
  share no column name but ARPT_NAME, DT_LOCAL_QTHR and DT_LOCAL_HR, and no column of the
  flight table is named like a column of the demand or weather table, bare or with the
  prefix ORIGIN_ or DEST_. Then for every column name C of the demand or the weather table
  other than ARPT_NAME, DT_LOCAL_QTHR and DT_LOCAL_HR, the output has no column called C,
  exactly one called ORIGIN_C and exactly one called DEST_C; and it has no column called
  ARPT_NAME, DT_LOCAL_QTHR or DT_LOCAL_HR, bare or prefixed.
\<close>

theorem prefixed_columns_once:
  fixes staged_flights staged_demand staged_weather out :: dataframe
  defines "f \<equiv> load_flights staged_flights"
    and "d \<equiv> load_attr staged_demand"
    and "w \<equiv> load_attr staged_weather"
  assumes run: "etl staged_flights staged_demand staged_weather = Inr out"
    and distinct_d: "distinct (map fold_case (columns d))"
    and distinct_w: "distinct (map fold_case (columns w))"
    and unprefixed: "\<forall>c \<in> set (columns d) \<union> set (columns w).
                       \<not> starts_with ''ORIGIN_'' c \<and> \<not> starts_with ''DEST_'' c"
    and shared: "\<forall>c \<in> set (columns d). \<forall>c' \<in> set (columns w). resolver c c' \<longrightarrow>
                   resolver c ''ARPT_NAME'' \<or> resolver c ''DT_LOCAL_QTHR'' \<or> resolver c ''DT_LOCAL_HR''"
    and flight: "\<forall>n \<in> set (columns f). \<forall>c \<in> set (columns d) \<union> set (columns w).
                   \<not> resolver n c \<and> \<not> resolver n (''ORIGIN_'' @ c) \<and> \<not> resolver n (''DEST_'' @ c)"
  shows "(\<forall>c \<in> set (columns d) \<union> set (columns w).
            \<not> resolver c ''ARPT_NAME'' \<and> \<not> resolver c ''DT_LOCAL_QTHR'' \<and> \<not> resolver c ''DT_LOCAL_HR''
            \<longrightarrow> occurrences out c = 0
                \<and> occurrences out (''ORIGIN_'' @ c) = 1
                \<and> occurrences out (''DEST_'' @ c) = 1)
       \<and> (\<forall>k \<in> set [''ARPT_NAME'', ''DT_LOCAL_QTHR'', ''DT_LOCAL_HR''].
            occurrences out k = 0
            \<and> occurrences out (''ORIGIN_'' @ k) = 0
            \<and> occurrences out (''DEST_'' @ k) = 0)"
proof -
  note append_Cons [simp del]
  from run obtain mg where mg: "merge_tables f d w = Inr mg" "clean_columns mg d = Inr out"
    unfolding f_def d_def w_def by (rule etl_Inr)
  from mg(1) obtain mg1 mg2 mg3 where
    s1: "merge_step f d ''ORIGIN'' ''DEP_TIME_DT_LOCAL_QTHR'' ''ARPT_NAME'' ''DT_LOCAL_QTHR'' ''ORIGIN_'' = Inr mg1"
    and s2: "merge_step mg1 d ''DEST'' ''ARR_TIME_DT_LOCAL_QTHR'' ''ARPT_NAME'' ''DT_LOCAL_QTHR'' ''DEST_'' = Inr mg2"
    and s3: "merge_step mg2 w ''ORIGIN'' ''DEP_TIME_DT_LOCAL_HR'' ''ARPT_NAME'' ''DT_LOCAL_HR'' ''ORIGIN_'' = Inr mg3"
    and s4: "merge_step mg3 w ''DEST'' ''ARR_TIME_DT_LOCAL_HR'' ''ARPT_NAME'' ''DT_LOCAL_HR'' ''DEST_'' = Inr mg"
    by (rule merge_tables_Inr)
  note out = occurrences_clean_columns [OF mg(2)]
  have ncd: "\<forall>c \<in> set (columns d). \<forall>x. \<not> resolver c (''ORIGIN_'' @ x)"
    "\<forall>c \<in> set (columns d). \<forall>x. \<not> resolver c (''DEST_'' @ x)"
    and ncw: "\<forall>c \<in> set (columns w). \<forall>x. \<not> resolver c (''ORIGIN_'' @ x)"
    "\<forall>c \<in> set (columns w). \<forall>x. \<not> resolver c (''DEST_'' @ x)"
    using unprefixed by (blast dest: resolver_starts_with)+
  have pkd: "\<forall>x. \<not> resolver (''ORIGIN_'' @ x) ''ARPT_NAME'' \<and> \<not> resolver (''ORIGIN_'' @ x) ''DT_LOCAL_QTHR''"
    "\<forall>x. \<not> resolver (''DEST_'' @ x) ''ARPT_NAME'' \<and> \<not> resolver (''DEST_'' @ x) ''DT_LOCAL_QTHR''"
    and pkw: "\<forall>x. \<not> resolver (''ORIGIN_'' @ x) ''ARPT_NAME'' \<and> \<not> resolver (''ORIGIN_'' @ x) ''DT_LOCAL_HR''"
    "\<forall>x. \<not> resolver (''DEST_'' @ x) ''ARPT_NAME'' \<and> \<not> resolver (''DEST_'' @ x) ''DT_LOCAL_HR''"
    and cross: "\<forall>x y. \<not> resolver (''ORIGIN_'' @ x) (''DEST_'' @ y)"
    by (simp_all add: prefix_key_facts)
  note hit_d = occurrences_two_passes_hit [OF s1 s2 distinct_d ncd pkd cross]
  note hit_w = occurrences_two_passes_hit [OF s3 s4 distinct_w ncw pkw cross]
  note miss_d = occurrences_two_passes_miss [OF s1 s2 ncd]
  note miss_w = occurrences_two_passes_miss [OF s3 s4 ncw]
  have f0: "occurrences f c = 0" "occurrences f (''ORIGIN_'' @ c) = 0" "occurrences f (''DEST_'' @ c) = 0"
    if "c \<in> set (columns d) \<union> set (columns w)" for c
    using flight that unfolding occurrences_0_iff by blast+

  have attr: "occurrences out c = 0 \<and> occurrences out (''ORIGIN_'' @ c) = 1
                \<and> occurrences out (''DEST_'' @ c) = 1"
    if c: "c \<in> set (columns d) \<union> set (columns w)"
      and nk: "\<not> resolver c ''ARPT_NAME''" "\<not> resolver c ''DT_LOCAL_QTHR''" "\<not> resolver c ''DT_LOCAL_HR''"
    for c
  proof -
    have unp: "\<forall>x. \<not> resolver c (''ORIGIN_'' @ x)" "\<forall>x. \<not> resolver c (''DEST_'' @ x)"
      using c ncd ncw by auto
    have mgc: "occurrences mg c = 0 \<and> occurrences mg (''ORIGIN_'' @ c) = 1
                \<and> occurrences mg (''DEST_'' @ c) = 1"
    proof (cases "c \<in> set (columns d)")
      case True
      have now: "\<forall>x \<in> set (columns w). \<not> resolver c x"
        using shared True nk by blast
      have 2: "occurrences mg2 c = 0" "occurrences mg2 (''ORIGIN_'' @ c) = 1"
        "occurrences mg2 (''DEST_'' @ c) = 1"
        using hit_d [OF True nk(1,2)] f0 [OF c] by simp_all
      have "occurrences mg c = occurrences mg2 c"
        by (rule miss_w [OF nk(1,3) now]) (use unp in auto)
      moreover have "occurrences mg (''ORIGIN_'' @ c) = occurrences mg2 (''ORIGIN_'' @ c)"
      proof (rule miss_w)
        show "\<not> resolver (''ORIGIN_'' @ c) ''ARPT_NAME''" "\<not> resolver (''ORIGIN_'' @ c) ''DT_LOCAL_HR''"
          by (simp_all add: prefix_key_facts)
        show "\<forall>x \<in> set (columns w). \<not> resolver (''ORIGIN_'' @ c) x"
          using ncw by (auto simp: resolver_sym)
        show "\<forall>x \<in> set (columns w). \<not> resolver x ''ARPT_NAME'' \<and> \<not> resolver x ''DT_LOCAL_HR'' \<longrightarrow>
                \<not> resolver (''ORIGIN_'' @ c) (''ORIGIN_'' @ x) \<and> \<not> resolver (''ORIGIN_'' @ c) (''DEST_'' @ x)"
          using now by (simp add: resolver_prefix prefix_key_facts)
      qed
      moreover have "occurrences mg (''DEST_'' @ c) = occurrences mg2 (''DEST_'' @ c)"
      proof (rule miss_w)
        show "\<not> resolver (''DEST_'' @ c) ''ARPT_NAME''" "\<not> resolver (''DEST_'' @ c) ''DT_LOCAL_HR''"
          by (simp_all add: prefix_key_facts)
        show "\<forall>x \<in> set (columns w). \<not> resolver (''DEST_'' @ c) x"
          using ncw by (auto simp: resolver_sym)
        show "\<forall>x \<in> set (columns w). \<not> resolver x ''ARPT_NAME'' \<and> \<not> resolver x ''DT_LOCAL_HR'' \<longrightarrow>
                \<not> resolver (''DEST_'' @ c) (''ORIGIN_'' @ x) \<and> \<not> resolver (''DEST_'' @ c) (''DEST_'' @ x)"
          using now by (simp add: resolver_prefix prefix_key_facts)
      qed
      ultimately show ?thesis using 2 by simp
    next
      case False
      with c have cw: "c \<in> set (columns w)" by simp
      have nod: "\<forall>x \<in> set (columns d). \<not> resolver c x"
      proof
        fix x assume x: "x \<in> set (columns d)"
        show "\<not> resolver c x"
        proof
          assume "resolver c x"
          then have "resolver x c" by (simp add: resolver_sym)
          with shared x cw have "resolver x ''ARPT_NAME'' \<or> resolver x ''DT_LOCAL_QTHR'' \<or> resolver x ''DT_LOCAL_HR''"
            by blast
          with \<open>resolver c x\<close> nk show False by (auto simp: resolver_def)
        qed
      qed
      have "occurrences mg2 c = occurrences f c"
        by (rule miss_d [OF nk(1,2) nod]) (use unp in auto)
      moreover have "occurrences mg2 (''ORIGIN_'' @ c) = occurrences f (''ORIGIN_'' @ c)"
      proof (rule miss_d)
        show "\<not> resolver (''ORIGIN_'' @ c) ''ARPT_NAME''" "\<not> resolver (''ORIGIN_'' @ c) ''DT_LOCAL_QTHR''"
          by (simp_all add: prefix_key_facts)
        show "\<forall>x \<in> set (columns d). \<not> resolver (''ORIGIN_'' @ c) x"
          using ncd by (auto simp: resolver_sym)
        show "\<forall>x \<in> set (columns d). \<not> resolver x ''ARPT_NAME'' \<and> \<not> resolver x ''DT_LOCAL_QTHR'' \<longrightarrow>
                \<not> resolver (''ORIGIN_'' @ c) (''ORIGIN_'' @ x) \<and> \<not> resolver (''ORIGIN_'' @ c) (''DEST_'' @ x)"
          using nod by (simp add: resolver_prefix prefix_key_facts)
      qed
      moreover have "occurrences mg2 (''DEST_'' @ c) = occurrences f (''DEST_'' @ c)"
      proof (rule miss_d)
        show "\<not> resolver (''DEST_'' @ c) ''ARPT_NAME''" "\<not> resolver (''DEST_'' @ c) ''DT_LOCAL_QTHR''"
          by (simp_all add: prefix_key_facts)
        show "\<forall>x \<in> set (columns d). \<not> resolver (''DEST_'' @ c) x"
          using ncd by (auto simp: resolver_sym)
        show "\<forall>x \<in> set (columns d). \<not> resolver x ''ARPT_NAME'' \<and> \<not> resolver x ''DT_LOCAL_QTHR'' \<longrightarrow>
                \<not> resolver (''DEST_'' @ c) (''ORIGIN_'' @ x) \<and> \<not> resolver (''DEST_'' @ c) (''DEST_'' @ x)"
          using nod by (simp add: resolver_prefix prefix_key_facts)
      qed
      ultimately show ?thesis
        using hit_w [OF cw nk(1,3)] f0 [OF c] by simp
    qed
    moreover have "occurrences out (''ORIGIN_'' @ c) = occurrences mg (''ORIGIN_'' @ c)"
      unfolding out using prefixed_not_removed(1) [OF nk(2,3)] by simp
    moreover have "occurrences out (''DEST_'' @ c) = occurrences mg (''DEST_'' @ c)"
      unfolding out using prefixed_not_removed(2) [OF nk(2,3)] by simp
    moreover have "occurrences mg c = 0 \<Longrightarrow> occurrences out c = 0"
      unfolding out by simp
    ultimately show ?thesis by simp
  qed

  have arpt: "occurrences mg ''ARPT_NAME'' = 0"
    by (rule occurrences_merge_step_key [OF s4]) (simp_all add: prefix_key_facts resolver_refl)
  have hr: "occurrences mg ''DT_LOCAL_HR'' = 0"
    by (rule occurrences_merge_step_key [OF s4]) (simp_all add: prefix_key_facts resolver_refl)
  have qthr: "occurrences mg ''DT_LOCAL_QTHR'' = 0"
  proof (cases "\<exists>c \<in> set (columns w). resolver c ''DT_LOCAL_QTHR''")
    case True
    then obtain c where c: "c \<in> set (columns w)" "resolver c ''DT_LOCAL_QTHR''" by blast
    then have "\<not> resolver c ''ARPT_NAME''" "\<not> resolver c ''DT_LOCAL_HR''"
      using key_prefix_facts(7,9) by (auto simp: resolver_def)
    from hit_w(1) [OF c(1) this] have "occurrences mg c = 0" .
    then show ?thesis using occurrences_cong [OF c(2)] by simp
  next
    case False
    have "occurrences mg2 ''DT_LOCAL_QTHR'' = 0"
      by (rule occurrences_merge_step_key [OF s2]) (simp_all add: prefix_key_facts resolver_refl)
    moreover have "occurrences mg ''DT_LOCAL_QTHR'' = occurrences mg2 ''DT_LOCAL_QTHR''"
    proof (rule miss_w)
      show "\<not> resolver ''DT_LOCAL_QTHR'' ''ARPT_NAME''" "\<not> resolver ''DT_LOCAL_QTHR'' ''DT_LOCAL_HR''"
        by (simp_all add: key_prefix_facts prefix_key_facts)
      show "\<forall>x \<in> set (columns w). \<not> resolver ''DT_LOCAL_QTHR'' x"
        using False resolver_sym by blast
      show "\<forall>x \<in> set (columns w). \<not> resolver x ''ARPT_NAME'' \<and> \<not> resolver x ''DT_LOCAL_HR'' \<longrightarrow>
              \<not> resolver ''DT_LOCAL_QTHR'' (''ORIGIN_'' @ x) \<and> \<not> resolver ''DT_LOCAL_QTHR'' (''DEST_'' @ x)"
        by (simp add: key_prefix_facts)
    qed
    ultimately show ?thesis by simp
  qed
  have parpt: "occurrences mg (p @ ''ARPT_NAME'') = 0" if p: "p = ''ORIGIN_'' \<or> p = ''DEST_''" for p
  proof -
    from merge_step_key_column [OF s1] obtain c where
      c: "c \<in> set (columns d)" "resolver c ''ARPT_NAME''" by blast
    have "resolver (p @ c) (p @ ''ARPT_NAME'')" using c(2) by (simp add: resolver_prefix)
    from occurrences_cong [OF this] have f: "occurrences f (p @ ''ARPT_NAME'') = 0"
      using f0 [of c] c(1) p by auto
    have "occurrences mg2 (p @ ''ARPT_NAME'') = occurrences f (p @ ''ARPT_NAME'')"
    proof (rule miss_d)
      show "\<not> resolver (p @ ''ARPT_NAME'') ''ARPT_NAME''" "\<not> resolver (p @ ''ARPT_NAME'') ''DT_LOCAL_QTHR''"
        using p by (auto simp: prefix_key_facts)
      show "\<forall>x \<in> set (columns d). \<not> resolver (p @ ''ARPT_NAME'') x"
        using ncd p by (auto simp: resolver_sym)
      show "\<forall>x \<in> set (columns d). \<not> resolver x ''ARPT_NAME'' \<and> \<not> resolver x ''DT_LOCAL_QTHR'' \<longrightarrow>
              \<not> resolver (p @ ''ARPT_NAME'') (''ORIGIN_'' @ x) \<and> \<not> resolver (p @ ''ARPT_NAME'') (''DEST_'' @ x)"
        using p by (auto simp: resolver_prefix prefix_key_facts resolver_sym)
    qed
    moreover have "occurrences mg (p @ ''ARPT_NAME'') = occurrences mg2 (p @ ''ARPT_NAME'')"
    proof (rule miss_w)
      show "\<not> resolver (p @ ''ARPT_NAME'') ''ARPT_NAME''" "\<not> resolver (p @ ''ARPT_NAME'') ''DT_LOCAL_HR''"
        using p by (auto simp: prefix_key_facts)
      show "\<forall>x \<in> set (columns w). \<not> resolver (p @ ''ARPT_NAME'') x"
        using ncw p by (auto simp: resolver_sym)
      show "\<forall>x \<in> set (columns w). \<not> resolver x ''ARPT_NAME'' \<and> \<not> resolver x ''DT_LOCAL_HR'' \<longrightarrow>
              \<not> resolver (p @ ''ARPT_NAME'') (''ORIGIN_'' @ x) \<and> \<not> resolver (p @ ''ARPT_NAME'') (''DEST_'' @ x)"
        using p by (auto simp: resolver_prefix prefix_key_facts resolver_sym)
    qed
    ultimately show ?thesis using f by simp
  qed
  have keys: "occurrences out k = 0 \<and> occurrences out (''ORIGIN_'' @ k) = 0
                \<and> occurrences out (''DEST_'' @ k) = 0"
    if "k \<in> set [''ARPT_NAME'', ''DT_LOCAL_QTHR'', ''DT_LOCAL_HR'']" for k
  proof -
    from that consider "k = ''ARPT_NAME''" | "k = ''DT_LOCAL_QTHR''" | "k = ''DT_LOCAL_HR''" by auto
    then show ?thesis
    proof cases
      case 1
      show ?thesis unfolding 1 out using arpt parpt [of "''ORIGIN_''"] parpt [of "''DEST_''"] by simp
    next
      case 2
      show ?thesis unfolding 2 out using qthr prefixed_bucket_removed by simp
    next
      case 3
      show ?thesis unfolding 3 out using hr prefixed_bucket_removed by simp
    qed
  qed
  from attr keys show ?thesis by blast
qed

theorem prefixed_columns_once_witness:
  "etl ex_flights ex_demand ex_weather = Inr ex_out
   \<and> ''DEP_CNT'' \<in> set (columns (load_attr ex_demand))
   \<and> occurrences ex_out ''DEP_CNT'' = 0
   \<and> occurrences ex_out ''ORIGIN_DEP_CNT'' = 1
   \<and> occurrences ex_out ''DEST_DEP_CNT'' = 1
   \<and> ''TEMP'' \<in> set (columns (load_attr ex_weather))
   \<and> occurrences ex_out ''TEMP'' = 0
   \<and> occurrences ex_out ''ORIGIN_TEMP'' = 1
   \<and> occurrences ex_out ''DEST_TEMP'' = 1
   \<and> occurrences ex_out ''ARPT_NAME'' = 0
   \<and> occurrences ex_out ''ORIGIN_ARPT_NAME'' = 0
   \<and> occurrences ex_out ''DEST_DT_LOCAL_HR'' = 0"
proof -
  have cols: "columns (load_attr ex_demand) = [''ARPT_NAME'', ''DT_LOCAL_QTHR'', ''DEP_CNT'', ''DT_LOCAL_DAY'']"
    "columns (load_attr ex_weather) = [''ARPT_NAME'', ''DT_LOCAL_HR'', ''TEMP'']"
    "columns (load_flights ex_flights) = [''ORIGIN'', ''DEST'', ''DEP_TIME_DT_LOCAL_QTHR'',
       ''ARR_TIME_DT_LOCAL_QTHR'', ''DEP_TIME_DT_LOCAL_HR'', ''ARR_TIME_DT_LOCAL_HR'',
       ''ARR_DELAY'', ''YYYYMM'']"
    by (simp_all add: ex_load ex_arpt_demand_def ex_arpt_weather_def ex_nas_flights_def columns_def)
  have 1: "distinct (map fold_case (columns (load_attr ex_demand)))"
    and 2: "distinct (map fold_case (columns (load_attr ex_weather)))"
    by (simp_all add: cols fold_case_def upper_char_simps)
  have 3: "\<forall>c \<in> set (columns (load_attr ex_demand)) \<union> set (columns (load_attr ex_weather)).
             \<not> starts_with ''ORIGIN_'' c \<and> \<not> starts_with ''DEST_'' c"
    by (simp add: cols starts_with_def fold_case_def upper_char_simps)
  have 4: "\<forall>c \<in> set (columns (load_attr ex_demand)). \<forall>c' \<in> set (columns (load_attr ex_weather)).
             resolver c c' \<longrightarrow>
             resolver c ''ARPT_NAME'' \<or> resolver c ''DT_LOCAL_QTHR'' \<or> resolver c ''DT_LOCAL_HR''"
    by (simp add: cols resolver_def fold_case_def upper_char_simps)
  have 5: "\<forall>n \<in> set (columns (load_flights ex_flights)).
             \<forall>c \<in> set (columns (load_attr ex_demand)) \<union> set (columns (load_attr ex_weather)).
               \<not> resolver n c \<and> \<not> resolver n (''ORIGIN_'' @ c) \<and> \<not> resolver n (''DEST_'' @ c)"
    by (simp add: cols resolver_def fold_case_def upper_char_simps)
  from prefixed_columns_once [OF ex_etl 1 2 3 4 5] show ?thesis
    by (simp add: cols ex_etl resolver_def fold_case_def upper_char_simps)
qed

definition cx4_flights :: dataframe where
  "cx4_flights = \<lparr>schema = [(''ORIGIN'', StringType), (''DEST'', StringType),
      (''DEP_TIME_DT_LOCAL_QTHR'', TimestampType), (''ARR_TIME_DT_LOCAL_QTHR'', TimestampType),
      (''DEP_TIME_DT_LOCAL_HR'', TimestampType), (''ARR_TIME_DT_LOCAL_HR'', TimestampType),
      (''ORIGIN_ARPT_NAME'', StringType), (''YYYYMM'', LongType)],
    rows = [[Str ''JFK'', Str ''LAX'', Ts 1, Ts 7, Ts 0, Ts 4, Str ''Kennedy'', Num 202001]]\<rparr>"

definition cx4_merged :: dataframe where
  "cx4_merged = \<lparr>schema = [(''ORIGIN'', StringType), (''DEST'', StringType),
      (''DEP_TIME_DT_LOCAL_QTHR'', TimestampType), (''ARR_TIME_DT_LOCAL_QTHR'', TimestampType),
      (''DEP_TIME_DT_LOCAL_HR'', TimestampType), (''ARR_TIME_DT_LOCAL_HR'', TimestampType),
      (''ORIGIN_ARPT_NAME'', StringType), (''YYYYMM'', LongType),
      (''ORIGIN_DEP_CNT'', LongType), (''ORIGIN_DT_LOCAL_DAY'', TimestampType),
      (''DEST_DEP_CNT'', LongType), (''DEST_DT_LOCAL_DAY'', TimestampType),
      (''ORIGIN_TEMP'', DoubleType), (''DEST_TEMP'', DoubleType)],
    rows = [[Str ''JFK'', Str ''LAX'', Ts 1, Ts 7, Ts 0, Ts 4, Str ''Kennedy'', Num 202001,
             Null, Null, Num 5, Ts 0, Num 3, Null]]\<rparr>"

definition cx4_out :: dataframe where
  "cx4_out = \<lparr>schema = [(''ORIGIN'', StringType), (''DEST'', StringType),
      (''ORIGIN_ARPT_NAME'', StringType), (''YYYYMM'', LongType),
      (''ORIGIN_DEP_CNT'', LongType), (''ORIGIN_DT_LOCAL_DAY'', TimestampType),
      (''DEST_DEP_CNT'', LongType), (''DEST_DT_LOCAL_DAY'', TimestampType),
      (''ORIGIN_TEMP'', DoubleType), (''DEST_TEMP'', DoubleType)],
    rows = [[Str ''JFK'', Str ''LAX'', Str ''Kennedy'', Num 202001, Num 0, Null, Num 5, Ts 0,
             Num 3, Null]]\<rparr>"

lemma cx4_load: "load_flights cx4_flights = cx4_flights"
  by (simp add: eval_defs cx4_flights_def)

lemma cx4_merge: "merge_tables cx4_flights ex_arpt_demand ex_arpt_weather = Inr cx4_merged"
  by (simp add: eval_defs cx4_flights_def ex_arpt_demand_def ex_arpt_weather_def cx4_merged_def
      cong: bindE_weak_cong)

lemma cx4_clean: "clean_columns cx4_merged ex_arpt_demand = Inr cx4_out"
  by (simp add: eval_defs ex_arpt_demand_def cx4_merged_def cx4_out_def cong: bindE_weak_cong)

lemma cx4_etl: "etl cx4_flights ex_arpt_demand ex_arpt_weather = Inr cx4_out"
  by (simp add: etl_def cx4_load ex_loaded_load cx4_merge cx4_clean bindE_Inr)

theorem prefixed_key_column_in_output:
  "etl cx4_flights ex_arpt_demand ex_arpt_weather = Inr cx4_out
   \<and> ''ORIGIN_ARPT_NAME'' = ''ORIGIN_'' @ ''ARPT_NAME''
   \<and> ''ORIGIN_ARPT_NAME'' \<in> set (columns cx4_out)"
  by (simp add: cx4_etl) (simp add: cx4_out_def columns_def)

section \<open>The columns of the output\<close>

text \<open>
  C5 (amended). The table handed to the writer has none of the eight leakage columns
  ARR_/DEP_ + TIME_DT_LOCAL, TIME_DT_LOCAL_DAY, TIME_DT_LOCAL_HR, TIME_DT_LOCAL_QTHR. A
  column of the loaded flight table is retained, under its name and with its type, when
  its name is none of these eight, none of ORIGIN_/DEST_ + DT_LOCAL_QTHR, DT_LOCAL_HR (the
  final drop removes these as well), none of the key names ARPT_NAME, DT_LOCAL_QTHR,
  DT_LOCAL_HR (dropped after the joins) and no column name of the demand or the weather
  table (such a column is renamed).
\<close>

theorem leakage_columns_dropped:
  assumes "etl staged_flights staged_demand staged_weather = Inr out"
  shows "ad_remove_cols = [''ARR_TIME_DT_LOCAL'', ''ARR_TIME_DT_LOCAL_DAY'', ''ARR_TIME_DT_LOCAL_HR'',
             ''ARR_TIME_DT_LOCAL_QTHR'', ''DEP_TIME_DT_LOCAL'', ''DEP_TIME_DT_LOCAL_DAY'',
             ''DEP_TIME_DT_LOCAL_HR'', ''DEP_TIME_DT_LOCAL_QTHR'']
       \<and> (\<forall>x \<in> set ad_remove_cols. \<forall>n \<in> set (columns out). \<not> resolver n x)
       \<and> (\<forall>ct \<in> set (schema (load_flights staged_flights)).
            (\<forall>x \<in> set (ad_remove_cols @ od_remove_cols
                         @ [''ARPT_NAME'', ''DT_LOCAL_QTHR'', ''DT_LOCAL_HR'']
                         @ columns (load_attr staged_demand) @ columns (load_attr staged_weather)).
               \<not> resolver (fst ct) x)
            \<longrightarrow> ct \<in> set (schema out))"
proof -
  from assms obtain mg where mg:
    "merge_tables (load_flights staged_flights) (load_attr staged_demand) (load_attr staged_weather) = Inr mg"
    "clean_columns mg (load_attr staged_demand) = Inr out"
    by (rule etl_Inr)
  from mg(2) obtain filled where filled:
    "fillna mg (arpt_demand_attr_cols (load_attr staged_demand)) = Inr filled"
    "out = drop_cols filled (ad_remove_cols @ od_remove_cols)"
    by (rule clean_columns_Inr)
  have gone: "\<forall>x \<in> set ad_remove_cols. \<forall>n \<in> set (columns out). \<not> resolver n x"
    unfolding filled(2) columns_drop_cols by (auto simp: list_ex_iff)
  have kept: "ct \<in> set (schema out)"
    if "ct \<in> set (schema (load_flights staged_flights))"
      and no: "\<forall>x \<in> set (ad_remove_cols @ od_remove_cols
                         @ [''ARPT_NAME'', ''DT_LOCAL_QTHR'', ''DT_LOCAL_HR'']
                         @ columns (load_attr staged_demand) @ columns (load_attr staged_weather)).
               \<not> resolver (fst ct) x" for ct
  proof -
    have "ct \<in> set (schema mg)"
      using mg(1) that(1) by (rule in_schema_merge_tables) (use no in auto)
    then have "ct \<in> set (schema filled)"
      by (simp add: schema_fillna [OF filled(1)])
    moreover have "\<not> list_ex (resolver (fst ct)) (ad_remove_cols @ od_remove_cols)"
      using no by (auto simp: list_ex_iff)
    ultimately show ?thesis
      unfolding filled(2) schema_drop_cols by simp
  qed
  from gone kept show ?thesis using ad_remove_cols_eq by blast
qed

theorem leakage_columns_dropped_witness:
  "etl ex_flights ex_demand ex_weather = Inr ex_out
   \<and> (''DEP_TIME_DT_LOCAL_HR'', TimestampType) \<in> set (schema (load_flights ex_flights))
   \<and> ''DEP_TIME_DT_LOCAL_HR'' \<notin> set (columns ex_out)
   \<and> (''ARR_DELAY'', LongType) \<in> set (schema (load_flights ex_flights))
   \<and> (''ARR_DELAY'', LongType) \<in> set (schema ex_out)"
  using leakage_columns_dropped [OF ex_etl]
  by (simp add: ex_etl ex_load) (simp add: ex_nas_flights_def ex_out_def columns_def)

definition cx5_flights :: dataframe where
  "cx5_flights = \<lparr>schema = [(''ORIGIN'', StringType), (''DEST'', StringType),
      (''DEP_TIME_DT_LOCAL_QTHR'', TimestampType), (''ARR_TIME_DT_LOCAL_QTHR'', TimestampType),
      (''DEP_TIME_DT_LOCAL_HR'', TimestampType), (''ARR_TIME_DT_LOCAL_HR'', TimestampType),
      (''DT_LOCAL_HR'', TimestampType), (''YYYYMM'', LongType)],
    rows = [[Str ''JFK'', Str ''LAX'', Ts 1, Ts 7, Ts 0, Ts 4, Ts 0, Num 202001]]\<rparr>"

definition cx5_merged :: dataframe where
  "cx5_merged = \<lparr>schema = [(''ORIGIN'', StringType), (''DEST'', StringType),
      (''DEP_TIME_DT_LOCAL_QTHR'', TimestampType), (''ARR_TIME_DT_LOCAL_QTHR'', TimestampType),
      (''DEP_TIME_DT_LOCAL_HR'', TimestampType), (''ARR_TIME_DT_LOCAL_HR'', TimestampType),
      (''YYYYMM'', LongType), (''ORIGIN_DEP_CNT'', LongType), (''ORIGIN_DT_LOCAL_DAY'', TimestampType),
      (''DEST_DEP_CNT'', LongType), (''DEST_DT_LOCAL_DAY'', TimestampType),
      (''ORIGIN_TEMP'', DoubleType), (''DEST_TEMP'', DoubleType)],
    rows = [[Str ''JFK'', Str ''LAX'', Ts 1, Ts 7, Ts 0, Ts 4, Num 202001,
             Null, Null, Num 5, Ts 0, Num 3, Null]]\<rparr>"

definition cx5_out :: dataframe where
  "cx5_out = \<lparr>schema = [(''ORIGIN'', StringType), (''DEST'', StringType), (''YYYYMM'', LongType),
      (''ORIGIN_DEP_CNT'', LongType), (''ORIGIN_DT_LOCAL_DAY'', TimestampType),
      (''DEST_DEP_CNT'', LongType), (''DEST_DT_LOCAL_DAY'', TimestampType),
      (''ORIGIN_TEMP'', DoubleType), (''DEST_TEMP'', DoubleType)],
    rows = [[Str ''JFK'', Str ''LAX'', Num 202001, Num 0, Null, Num 5, Ts 0, Num 3, Null]]\<rparr>"

lemma cx5_load: "load_flights cx5_flights = cx5_flights"
  by (simp add: eval_defs cx5_flights_def)

lemma cx5_merge: "merge_tables cx5_flights ex_arpt_demand ex_arpt_weather = Inr cx5_merged"
  by (simp add: eval_defs cx5_flights_def ex_arpt_demand_def ex_arpt_weather_def cx5_merged_def
      cong: bindE_weak_cong)

lemma cx5_clean: "clean_columns cx5_merged ex_arpt_demand = Inr cx5_out"
  by (simp add: eval_defs ex_arpt_demand_def cx5_merged_def cx5_out_def cong: bindE_weak_cong)

lemma cx5_etl: "etl cx5_flights ex_arpt_demand ex_arpt_weather = Inr cx5_out"
  by (simp add: etl_def cx5_load ex_loaded_load cx5_merge cx5_clean bindE_Inr)

theorem flight_column_dt_local_hr_not_retained:
  "etl cx5_flights ex_arpt_demand ex_arpt_weather = Inr cx5_out
   \<and> ''DT_LOCAL_HR'' \<in> set (columns (load_flights cx5_flights))
   \<and> ''DT_LOCAL_HR'' \<notin> set ad_remove_cols
   \<and> ''DT_LOCAL_HR'' \<notin> set (columns cx5_out)"
  by (simp add: cx5_etl cx5_load ad_remove_cols_eq) (simp add: cx5_flights_def cx5_out_def columns_def)

section \<open>The rows of the merged table\<close>

text \<open>
  C1 (amended). Every flight row appears at least once in the merged table: the merged
  table starts with the columns of the flight table (those that no merge drops for having
  the name of a join key, under the names the merges give them), and the rows of the
  merged table, cut to these columns, contain every flight row, as many times as the
  flight table has it or more. When the demand table has at most one row for each
  (ARPT_NAME, DT_LOCAL_QTHR) and the weather table at most one for each
  (ARPT_NAME, DT_LOCAL_HR), and the key columns have the same type on both sides of each
  join, they are the flight rows, each exactly as many times as in the flight table:
  the four left joins preserve the cardinality of the flight table. When no flight column
  has the name of a join key, no cell of a flight row is dropped.
\<close>

theorem flight_rows_once:
  assumes "merge_tables nas_flights arpt_demand arpt_weather = Inr mg"
    and "wf_df nas_flights" "wf_df arpt_demand" "wf_df arpt_weather"
  shows "take (length (schema (flight_part nas_flights arpt_demand arpt_weather))) (schema mg)
           = schema (flight_part nas_flights arpt_demand arpt_weather)
       \<and> mset (rows (flight_part nas_flights arpt_demand arpt_weather))
           \<subseteq># mset (map (take (length (schema (flight_part nas_flights arpt_demand arpt_weather))))
                      (rows mg))
       \<and> (unique_keys arpt_demand ''ARPT_NAME'' ''DT_LOCAL_QTHR''
            \<and> unique_keys arpt_weather ''ARPT_NAME'' ''DT_LOCAL_HR''
            \<and> key_types_agree nas_flights arpt_demand arpt_weather
          \<longrightarrow> mset (map (take (length (schema (flight_part nas_flights arpt_demand arpt_weather))))
                      (rows mg))
                = mset (rows (flight_part nas_flights arpt_demand arpt_weather))
              \<and> length (rows mg) = length (rows nas_flights))
       \<and> (no_key_columns nas_flights
          \<longrightarrow> rows (flight_part nas_flights arpt_demand arpt_weather) = rows nas_flights
              \<and> length (schema (flight_part nas_flights arpt_demand arpt_weather))
                  = length (schema nas_flights))"
proof -
  let ?fp = "flight_part nas_flights arpt_demand arpt_weather"
  note fp = merge_tables_flight_part [OF assms]
  have "length (rows mg) = length (rows nas_flights)"
    if "mset (map (take (length (schema ?fp))) (rows mg)) = mset (rows ?fp)"
  proof -
    from that have "size (mset (map (take (length (schema ?fp))) (rows mg))) = size (mset (rows ?fp))"
      by (rule arg_cong)
    then show ?thesis by (simp add: length_rows_flight_part)
  qed
  with fp flight_part_no_key(1,2) [OF _ assms(2)] show ?thesis by blast
qed

theorem flight_rows_once_witness:
  "merge_tables ex_nas_flights ex_arpt_demand ex_arpt_weather = Inr ex_merged
   \<and> unique_keys ex_arpt_demand ''ARPT_NAME'' ''DT_LOCAL_QTHR''
   \<and> unique_keys ex_arpt_weather ''ARPT_NAME'' ''DT_LOCAL_HR''
   \<and> key_types_agree ex_nas_flights ex_arpt_demand ex_arpt_weather
   \<and> no_key_columns ex_nas_flights
   \<and> length (schema ex_nas_flights) = 8
   \<and> mset (map (take 8) (rows ex_merged)) = mset (rows ex_nas_flights)
   \<and> length (rows ex_merged) = length (rows ex_nas_flights)"
proof -
  let ?fp = "flight_part ex_nas_flights ex_arpt_demand ex_arpt_weather"
  from flight_rows_once [OF ex_merge ex_wf] ex_unique_keys ex_key_types_agree ex_no_key_columns
  have "mset (map (take (length (schema ?fp))) (rows ex_merged)) = mset (rows ?fp)"
    "length (rows ex_merged) = length (rows ex_nas_flights)"
    "rows ?fp = rows ex_nas_flights" "length (schema ?fp) = length (schema ex_nas_flights)"
    by blast+
  moreover have "length (schema ex_nas_flights) = 8" by (simp add: ex_nas_flights_def)
  ultimately show ?thesis
    by (simp add: ex_merge ex_unique_keys ex_key_types_agree ex_no_key_columns)
qed

definition cx1_flights :: dataframe where
  "cx1_flights = \<lparr>schema = [(''ORIGIN'', StringType), (''DEST'', StringType),
      (''DEP_TIME_DT_LOCAL_QTHR'', TimestampType), (''ARR_TIME_DT_LOCAL_QTHR'', TimestampType),
      (''DEP_TIME_DT_LOCAL_HR'', TimestampType), (''ARR_TIME_DT_LOCAL_HR'', TimestampType),
      (''YYYYMM'', LongType)],
    rows = [[Str ''LAX'', Str ''JFK'', Ts 7, Ts 9, Ts 4, Ts 8, Num 202002]]\<rparr>"

definition cx1_demand :: dataframe where
  "cx1_demand = \<lparr>schema = [(''ARPT_NAME'', StringType), (''DT_LOCAL_QTHR'', TimestampType),
      (''DEP_CNT'', LongType)],
    rows = [[Str ''LAX'', Ts 7, Num 5], [Str ''LAX'', Ts 7, Num 6]]\<rparr>"

definition cx1_merged :: dataframe where
  "cx1_merged = \<lparr>schema = [(''ORIGIN'', StringType), (''DEST'', StringType),
      (''DEP_TIME_DT_LOCAL_QTHR'', TimestampType), (''ARR_TIME_DT_LOCAL_QTHR'', TimestampType),
      (''DEP_TIME_DT_LOCAL_HR'', TimestampType), (''ARR_TIME_DT_LOCAL_HR'', TimestampType),
      (''YYYYMM'', LongType), (''ORIGIN_DEP_CNT'', LongType), (''DEST_DEP_CNT'', LongType),
      (''ORIGIN_TEMP'', DoubleType), (''DEST_TEMP'', DoubleType)],
    rows = [[Str ''LAX'', Str ''JFK'', Ts 7, Ts 9, Ts 4, Ts 8, Num 202002, Num 5, Null, Null, Null],
            [Str ''LAX'', Str ''JFK'', Ts 7, Ts 9, Ts 4, Ts 8, Num 202002, Num 6, Null, Null, Null]]\<rparr>"

theorem duplicate_demand_key_doubles_flight_row:
  "merge_tables cx1_flights cx1_demand ex_arpt_weather = Inr cx1_merged
   \<and> rows cx1_flights = [[Str ''LAX'', Str ''JFK'', Ts 7, Ts 9, Ts 4, Ts 8, Num 202002]]
   \<and> map (take 7) (rows cx1_merged) =
       [[Str ''LAX'', Str ''JFK'', Ts 7, Ts 9, Ts 4, Ts 8, Num 202002],
        [Str ''LAX'', Str ''JFK'', Ts 7, Ts 9, Ts 4, Ts 8, Num 202002]]
   \<and> length (rows cx1_flights) = 1
   \<and> length (rows cx1_merged) = 2"
proof -
  have "merge_tables cx1_flights cx1_demand ex_arpt_weather = Inr cx1_merged"
    by (simp add: eval_defs cx1_flights_def cx1_demand_def ex_arpt_weather_def cx1_merged_def
        cong: bindE_weak_cong)
  then show ?thesis
    by (simp add: cx1_flights_def cx1_merged_def)
qed

section \<open>The fill step\<close>






lemma list_ex_with_prefixes:
  "list_ex P (with_prefixes ps cs) \<longleftrightarrow> (\<exists>p \<in> set ps. \<exists>c \<in> set cs. P (p @ c))"
  by (auto simp: with_prefixes_def list_ex_iff)

lemma column_data_clean_columns:
  assumes "clean_columns mg d = Inr out" "wf_df mg"
  shows "column_data out =
     [x \<leftarrow> map (\<lambda>x. (fst x, if list_ex (resolver (fst (fst x))) (arpt_demand_attr_cols d)
                                  \<and> is_numeric (snd (fst x))
                               then map (fill_zero (snd (fst x))) (snd x) else snd x))
             (column_data mg).
        \<not> list_ex (resolver (fst (fst x))) (ad_remove_cols @ od_remove_cols)]"
proof -
  from assms(1) obtain filled where
    f: "fillna mg (arpt_demand_attr_cols d) = Inr filled"
    and out: "out = drop_cols filled (ad_remove_cols @ od_remove_cols)"
    by (rule clean_columns_Inr)
  show ?thesis
    unfolding out
    by (simp only: column_data_drop_cols [OF wf_df_fillna [OF f assms(2)]]
        column_data_fillna [OF f assms(2)])
qed



lemmas column_evals = column_data_def cell_def upt_rec [of 0] upt_rec [of "Suc _"]
  upt_rec [of "numeral _"]




text \<open>
  C3. The steps after the merges leave the weather columns as the joins made them: every
  column of the output that the fill step is not told to fill is a column of the merged
  table, with the same name, type and cells (null where the join found no weather row), and
  every column of the merged table that is neither filled nor dropped is in the output.
  The fill step is given the prefixed demand column names only, so a column ORIGIN_ or
  DEST_ + a weather column name that is not also a demand column name is never filled.
\<close>

theorem weather_columns_untouched:
  assumes "merge_tables nas_flights arpt_demand arpt_weather = Inr mg"
    and "clean_columns mg arpt_demand = Inr out"
    and "wf_df nas_flights" "wf_df arpt_demand" "wf_df arpt_weather"
  shows "(\<forall>x \<in> set (column_data out).
            \<not> list_ex (resolver (fst (fst x))) (arpt_demand_attr_cols arpt_demand)
            \<longrightarrow> x \<in> set (column_data mg))
       \<and> (\<forall>x \<in> set (column_data mg).
            \<not> list_ex (resolver (fst (fst x))) (arpt_demand_attr_cols arpt_demand)
            \<and> \<not> list_ex (resolver (fst (fst x))) (ad_remove_cols @ od_remove_cols)
            \<longrightarrow> x \<in> set (column_data out))
       \<and> (\<forall>c \<in> set (columns arpt_weather).
            (\<forall>n \<in> set (columns arpt_demand). \<not> resolver c n)
            \<longrightarrow> \<not> list_ex (resolver (''ORIGIN_'' @ c)) (arpt_demand_attr_cols arpt_demand)
                \<and> \<not> list_ex (resolver (''DEST_'' @ c)) (arpt_demand_attr_cols arpt_demand))"
proof -
  note wf = wf_df_merge_tables [OF assms(1,3,4,5)]
  note cd = column_data_clean_columns [OF assms(2) wf]
  have 1: "x \<in> set (column_data mg)"
    if "x \<in> set (column_data out)"
      "\<not> list_ex (resolver (fst (fst x))) (arpt_demand_attr_cols arpt_demand)" for x
  proof -
    from that(1) obtain y where y: "y \<in> set (column_data mg)"
      and xy: "x = (fst y, if list_ex (resolver (fst (fst y))) (arpt_demand_attr_cols arpt_demand)
                                  \<and> is_numeric (snd (fst y))
                               then map (fill_zero (snd (fst y))) (snd y) else snd y)"
      unfolding cd by auto
    from xy that(2) have "x = y" by (simp add: prod_eq_iff)
    with y show ?thesis by simp
  qed
  have 2: "x \<in> set (column_data out)"
    if "x \<in> set (column_data mg)"
      "\<not> list_ex (resolver (fst (fst x))) (arpt_demand_attr_cols arpt_demand)"
      "\<not> list_ex (resolver (fst (fst x))) (ad_remove_cols @ od_remove_cols)" for x
  proof -
    have "(fst x, if list_ex (resolver (fst (fst x))) (arpt_demand_attr_cols arpt_demand)
                                  \<and> is_numeric (snd (fst x))
                               then map (fill_zero (snd (fst x))) (snd x) else snd x) = x"
      using that(2) by (simp add: prod_eq_iff)
    with that(1,3) show ?thesis
      unfolding cd by force
  qed
  have 3: "\<not> list_ex (resolver (p @ c)) (arpt_demand_attr_cols arpt_demand)"
    if "\<forall>n \<in> set (columns arpt_demand). \<not> resolver c n" "p = ''ORIGIN_'' \<or> p = ''DEST_''" for c p
  proof
    note append_Cons [simp del]
    assume "list_ex (resolver (p @ c)) (arpt_demand_attr_cols arpt_demand)"
    then obtain q n where q: "q = ''ORIGIN_'' \<or> q = ''DEST_''"
      and n: "n \<in> set (columns arpt_demand)" and r: "resolver (p @ c) (q @ n)"
      by (auto simp: arpt_demand_attr_cols_def list_ex_with_prefixes)
    from that(2) q r have "p = q"
      using prefix_key_facts(7,8) by auto
    with r have "resolver c n" by (simp add: resolver_prefix)
    with that(1) n show False by simp
  qed
  from 1 2 3 show ?thesis by blast
qed

theorem weather_columns_untouched_witness:
  "merge_tables ex_nas_flights ex_arpt_demand ex_arpt_weather = Inr ex_merged
   \<and> clean_columns ex_merged ex_arpt_demand = Inr ex_out
   \<and> ''TEMP'' \<in> set (columns ex_arpt_weather)
   \<and> ((''ORIGIN_TEMP'', DoubleType), [Num 3, Null]) \<in> set (column_data ex_out)
   \<and> ((''ORIGIN_TEMP'', DoubleType), [Num 3, Null]) \<in> set (column_data ex_merged)"
proof -
  have 1: "((''ORIGIN_TEMP'', DoubleType), [Num 3, Null]) \<in> set (column_data ex_out)"
    by (simp add: column_evals ex_out_def)
  have 2: "''TEMP'' \<in> set (columns ex_arpt_weather)"
    "\<forall>n \<in> set (columns ex_arpt_demand). \<not> resolver ''TEMP'' n"
    by (simp_all add: columns_def ex_arpt_weather_def ex_arpt_demand_def resolver_def fold_case_def
        upper_char_simps)
  from weather_columns_untouched [OF ex_merge ex_clean ex_wf] 1 2
  have "((''ORIGIN_TEMP'', DoubleType), [Num 3, Null]) \<in> set (column_data ex_merged)"
    by (metis append_Cons append_Nil fst_conv)
  with 1 2 show ?thesis by (simp add: ex_merge ex_clean)
qed

section \<open>Preparing the output directory\<close>

declare makedirs.simps [simp del]

lemma map_of_set_entry:
  "map_of es c \<noteq> None \<Longrightarrow> map_of (set_entry c x es) c = Some x"
  by (induction es) (auto simp: set_entry_def)

lemma mkdir_existing:
  "p \<noteq> [] \<Longrightarrow> lookup fs p \<noteq> None \<Longrightarrow> mkdir fs p = Inl FileExistsError"
proof (induction fs p rule: mkdir.induct)
  case (4 r es c c' cs)
  then show ?case by (auto simp: bindE_def split: option.splits)
qed (auto split: option.splits)

lemma mkdir_creates:
  "mkdir fs p = Inr fs' \<Longrightarrow> lookup fs' p = Some (Dir True [])"
proof (induction fs p arbitrary: fs' rule: mkdir.induct)
  case (3 r es c)
  then show ?case by (auto simp: map_add_def split: if_splits)
next
  case (4 r es c c' cs)
  from "4.prems" obtain x x' where x: "map_of es c = Some x" "mkdir x (c' # cs) = Inr x'"
    and fs': "fs' = Dir r (set_entry c x' es)"
    by (auto simp: bindE_eq_Inr split: option.splits)
  from "4.IH" [OF x] have "lookup x' (c' # cs) = Some (Dir True [])" .
  then show ?case using x(1) by (simp add: fs' map_of_set_entry)
qed auto

lemma makedirs_isdir:
  assumes "makedirs fs p = Inr fs1" "p \<noteq> []"
  shows "isdir fs1 p"
proof -
  from assms obtain fs0 where
    last_step: "(case mkdir fs0 p of Inr fs2 \<Rightarrow> Inr fs2
                 | Inl e \<Rightarrow> if isdir fs0 p then Inr fs0 else Inl e) = Inr fs1"
    by (subst (asm) makedirs.simps) (auto simp: bindE_eq_Inr)
  show ?thesis
  proof (cases "mkdir fs0 p")
    case (Inl e)
    with last_step show ?thesis by (auto split: if_splits)
  next
    case (Inr fs2)
    with last_step have "fs2 = fs1" by simp
    with mkdir_creates [OF Inr] show ?thesis by (simp add: isdir_def)
  qed
qed

lemma lookup_put_Some:
  "lookup fs p \<noteq> None \<Longrightarrow> lookup (put fs p (Some x)) p = Some x"
proof (induction fs p "Some x" rule: put.induct)
  case (4 r es c c' cs)
  then show ?case by (auto simp: map_of_set_entry split: option.splits)
qed (auto simp: map_of_set_entry split: option.splits)

lemma rmtree_failure_leaves_dir:
  assumes "isdir fs p" "snd (rmtree fs p) \<noteq> None"
  shows "lookup (fst (rmtree fs p)) p \<noteq> None"
proof -
  from assms(1) obtain r es where dir: "lookup fs p = Some (Dir r es)"
    by (auto simp: isdir_def split: option.splits node.splits)
  show ?thesis
  proof (cases "rm_node (Dir r es)")
    case None
    with dir assms(2) show ?thesis by (simp add: rmtree_def)
  next
    case (Some left)
    with dir have "fst (rmtree fs p) = put fs p (Some left)" by (simp add: rmtree_def)
    with dir show ?thesis by (simp add: lookup_put_Some)
  qed
qed

text \<open>
  C6. The exception of a failed deletion is dropped, but the directory is then still
  there and \<^verbatim>\<open>os.mkdir\<close> raises FileExistsError: the run stops.
\<close>

theorem failed_deletion_stops_run:
  assumes "makedirs fs etl_output_dir = Inr fs1"
    and "snd (rmtree fs1 etl_output_dir) \<noteq> None"
  shows "prepare_output_dir fs = Inl FileExistsError"
proof -
  have ne: "etl_output_dir \<noteq> []" by (simp add: etl_output_dir_def)
  from makedirs_isdir [OF assms(1) ne] have "isdir fs1 etl_output_dir" .
  from rmtree_failure_leaves_dir [OF this assms(2)]
  have "mkdir (fst (rmtree fs1 etl_output_dir)) etl_output_dir = Inl FileExistsError"
    by (rule mkdir_existing [OF ne])
  then show ?thesis by (simp add: prepare_output_dir_def assms(1) bindE_Inr)
qed

text \<open>When the cell does not raise, the output directory is there and empty.\<close>

lemma prepared_dir_empty:
  assumes "prepare_output_dir fs = Inr fs'"
  shows "lookup fs' etl_output_dir = Some (Dir True [])"
  using assms by (auto simp: prepare_output_dir_def bindE_eq_Inr dest: mkdir_creates)

definition fresh_fs :: node where
  "fresh_fs = Dir True [(''notebook.ipynb'', File True)]"

definition used_fs :: node where
  "used_fs = Dir True [(''data'', Dir True [(''staging_tbl'', Dir True []),
     (''encoded'', Dir True [(''NAS'', Dir True
        [(''YYYYMM=202001'', Dir True [(''part-0.parquet'', File True)])])])])]"

definition locked_fs :: node where
  "locked_fs = Dir True [(''data'', Dir True [(''staging_tbl'', Dir True []),
     (''encoded'', Dir True [(''NAS'', Dir True
        [(''YYYYMM=202001'', Dir True [(''part-0.parquet'', File False)])])])])]"

lemmas fs_evals = prepare_output_dir_def etl_output_dir_def makedirs.simps rmtree_def isdir_def
  set_entry_def bindE_Inr bindE_Inl

text \<open>On a first run, and on a run over an earlier output that can be deleted, the cell
  leaves an empty output directory.\<close>

lemma first_run_prepares:
  "prepare_output_dir fresh_fs = Inr (Dir True
     [(''notebook.ipynb'', File True),
      (''data'', Dir True [(''encoded'', Dir True [(''NAS'', Dir True [])])])])"
  by (simp add: fs_evals fresh_fs_def cong: bindE_weak_cong)

lemma rerun_prepares:
  "prepare_output_dir used_fs = Inr (Dir True [(''data'', Dir True [(''staging_tbl'', Dir True []),
     (''encoded'', Dir True [(''NAS'', Dir True [])])])])"
  by (simp add: fs_evals used_fs_def cong: bindE_weak_cong)

lemma locked_makedirs: "makedirs locked_fs etl_output_dir = Inr locked_fs"
  by (simp add: fs_evals locked_fs_def cong: bindE_weak_cong)

lemma locked_rmtree: "rmtree locked_fs etl_output_dir = (locked_fs, Some PermissionError)"
  by (simp add: fs_evals locked_fs_def)

theorem failed_deletion_stops_run_witness:
  "makedirs locked_fs etl_output_dir = Inr locked_fs
   \<and> rmtree locked_fs etl_output_dir = (locked_fs, Some PermissionError)
   \<and> prepare_output_dir locked_fs = Inl FileExistsError"
  using failed_deletion_stops_run [OF locked_makedirs]
  by (simp add: locked_makedirs locked_rmtree)

section \<open>Writing the output\<close>

lemma concat_ranges:
  assumes "b 0 = 0" "\<forall>i. b i \<le> b (Suc i)"
  shows "concat (map (\<lambda>i. take (b (Suc i) - b i) (drop (b i) xs)) [0..<k]) = take (b k) xs"
proof (induction k)
  case 0
  then show ?case by (simp add: assms(1))
next
  case (Suc k)
  have "take (b k) xs @ take (b (Suc k) - b k) (drop (b k) xs) = take (b k + (b (Suc k) - b k)) xs"
    by (simp add: take_add)
  also have "b k + (b (Suc k) - b k) = b (Suc k)"
    using assms(2) by simp
  finally show ?case by (simp add: Suc.IH)
qed

lemma concat_map_concat_eq: "concat (map concat xss) = concat (concat xss)"
  by (induction xss) simp_all

lemma concat_coalesce:
  assumes "0 < n"
  shows "concat (coalesce n parts) = concat parts"
proof (cases "length parts \<le> n")
  case True
  then show ?thesis by (simp add: coalesce_def)
next
  case False
  define b where "b = (\<lambda>i. i * length parts div n)"
  have b: "b 0 = 0" "\<forall>i. b i \<le> b (Suc i)"
    by (simp_all add: b_def div_le_mono)
  have bn: "b n = length parts" using assms by (simp add: b_def)
  have "concat (coalesce n parts)
      = concat (map concat (map (\<lambda>i. take (b (Suc i) - b i) (drop (b i) parts)) [0..<n]))"
    using False by (simp add: coalesce_def b_def comp_def)
  also have "\<dots> = concat (concat (map (\<lambda>i. take (b (Suc i) - b i) (drop (b i) parts)) [0..<n]))"
    by (rule concat_map_concat_eq)
  also have "\<dots> = concat (take (b n) parts)"
    by (simp only: concat_ranges [OF b])
  finally show ?thesis by (simp add: bn)
qed

lemma length_coalesce: "length (coalesce n parts) \<le> n"
  by (simp add: coalesce_def)

lemma insert_remove_at: "k < length r \<Longrightarrow> insert_at k (cell r k) (remove_at k r) = r"
  by (simp add: insert_at_def remove_at_def cell_def min_def id_take_nth_drop [symmetric])

lemma mset_concat_add_one:
  "distinct vs \<Longrightarrow> a \<in> set vs \<Longrightarrow>
     mset (concat (map (\<lambda>v. if a = v then x # g v else g v) vs)) = add_mset x (mset (concat (map g vs)))"
proof (induction vs)
  case Nil
  then show ?case by simp
next
  case (Cons v vs)
  show ?case
  proof (cases "a = v")
    case True
    with Cons.prems have "a \<notin> set vs" by simp
    then have "map (\<lambda>u. if a = u then x # g u else g u) vs = map g vs"
      by (intro map_cong) auto
    then show ?thesis using True by (simp del: map_eq_conv)
  next
    case False
    with Cons show ?thesis by simp
  qed
qed

lemma mset_group_by:
  "distinct vs \<Longrightarrow> f ` set xs \<subseteq> set vs \<Longrightarrow>
     mset (concat (map (\<lambda>v. [x \<leftarrow> xs. f x = v]) vs)) = mset xs"
proof (induction xs)
  case Nil
  then show ?case by (induction vs) auto
next
  case (Cons x xs)
  have "map (\<lambda>v. [y \<leftarrow> x # xs. f y = v]) vs
      = map (\<lambda>v. if f x = v then x # [y \<leftarrow> xs. f y = v] else [y \<leftarrow> xs. f y = v]) vs"
    by (intro map_cong) auto
  then show ?case
    using Cons by (simp add: mset_concat_add_one)
qed

lemma mset_concat_map_cong:
  "\<forall>x \<in> set xs. mset (h x) = mset (g x) \<Longrightarrow> mset (concat (map h xs)) = mset (concat (map g xs))"
  by (induction xs) simp_all

lemma concat_map_concat_map:
  "concat (map h (concat (map g xs))) = concat (map (\<lambda>x. concat (map h (g x))) xs)"
  by (induction xs) simp_all

lemma length_filter_concat_le:
  "\<forall>x \<in> set xs. length (filter P (g x)) \<le> 1 \<Longrightarrow> length (filter P (concat (map g xs))) \<le> length xs"
proof (induction xs)
  case Nil
  then show ?case by simp
next
  case (Cons x xs)
  then have "length (filter P (g x)) \<le> 1" "length (filter P (concat (map g xs))) \<le> length xs"
    by simp_all
  then show ?case by simp
qed

lemma length_filter_distinct_le: "distinct xs \<Longrightarrow> length [u \<leftarrow> xs. u = v] \<le> 1"
proof (induction xs)
  case Nil
  then show ?case by simp
next
  case (Cons x xs)
  show ?case
  proof (cases "x = v")
    case True
    with Cons.prems have "v \<notin> set xs" by simp
    then have "[u \<leftarrow> xs. u = v] = []" by (auto simp: filter_empty_conv)
    with True show ?thesis by simp
  next
    case False
    with Cons show ?thesis by simp
  qed
qed

lemma write_task_one_file_per_value:
  "length [f \<leftarrow> write_task k t task_rows. partition_value f = v] \<le> 1"
proof -
  have "length [f \<leftarrow> write_task k t task_rows. partition_value f = v]
      = length [u \<leftarrow> remdups (map (\<lambda>r. cell r k) task_rows). u = v]"
    by (simp add: write_task_def filter_map comp_def)
  also have "\<dots> \<le> 1"
    by (rule length_filter_distinct_le) simp
  finally show ?thesis .
qed

lemma write_task_task: "f \<in> set (write_task k t task_rows) \<Longrightarrow> task f = t"
  by (auto simp: write_task_def)

lemma write_task_restored:
  assumes "\<forall>r \<in> set task_rows. k < length r"
  shows "mset (concat (map (\<lambda>f. map (insert_at k (partition_value f)) (file_rows f))
                     (write_task k t task_rows))) = mset task_rows"
proof -
  let ?vs = "remdups (map (\<lambda>r. cell r k) task_rows)"
  have "map (\<lambda>f. map (insert_at k (partition_value f)) (file_rows f)) (write_task k t task_rows)
      = map (\<lambda>v. map (\<lambda>r. insert_at k v (remove_at k r)) [r \<leftarrow> task_rows. cell r k = v]) ?vs"
    by (simp add: write_task_def comp_def)
  also have "\<dots> = map (\<lambda>v. [r \<leftarrow> task_rows. cell r k = v]) ?vs"
  proof (rule map_cong [OF refl])
    fix v
    have "map (\<lambda>r. insert_at k v (remove_at k r)) [r \<leftarrow> task_rows. cell r k = v]
        = map (\<lambda>r. r) [r \<leftarrow> task_rows. cell r k = v]"
      by (rule map_cong [OF refl]) (use assms insert_remove_at in auto)
    then show "map (\<lambda>r. insert_at k v (remove_at k r)) [r \<leftarrow> task_rows. cell r k = v]
        = [r \<leftarrow> task_rows. cell r k = v]"
      by simp
  qed
  finally show ?thesis
    by (simp add: mset_group_by)
qed

text \<open>
  C8. The writer writes the merged table under the key YYYYMM in mode overwrite, from at
  most four partitions: what the directory held before is gone (the directory holds what
  a write into an empty directory gives), every file is written by one of at most four
  tasks, a value of YYYYMM has at most four files, and the rows of the files, each with
  the value of its directory put back in the place of the column YYYYMM, are the rows of
  the merged table, each as often as there.
\<close>

theorem writer_overwrites_by_yyyymm:
  assumes "writer existing mg partitions = Inr files"
    and "mset (concat partitions) = mset (rows mg)"
    and "wf_df mg"
  shows "\<exists>k. col mg ''YYYYMM'' = Inr k
           \<and> writer [] mg partitions = Inr files
           \<and> (\<forall>f \<in> set files. task f < 4)
           \<and> (\<forall>v. length [f \<leftarrow> files. partition_value f = v] \<le> 4)
           \<and> mset (concat (map (\<lambda>f. map (insert_at k (partition_value f)) (file_rows f)) files))
               = mset (rows mg)"
proof -
  define ps where "ps = coalesce 4 partitions"
  from assms(1) obtain k where k: "col mg ''YYYYMM'' = Inr k"
    and dist: "distinct (map fold_case (columns mg))"
    and files: "files = concat (map (\<lambda>tp. write_task k (fst tp) (snd tp)) (enumerate 0 ps))"
    by (auto simp: writer_def write_parquet_def bindE_eq_Inr ps_def Let_def split: if_splits)
  have len: "length ps \<le> 4" by (simp add: ps_def length_coalesce)
  have same: "writer [] mg partitions = Inr files"
    using k dist by (simp add: writer_def write_parquet_def bindE_Inr files ps_def)
  have tasks: "task f < 4" if "f \<in> set files" for f
  proof -
    from that obtain tp where tp: "tp \<in> set (enumerate 0 ps)" "f \<in> set (write_task k (fst tp) (snd tp))"
      by (auto simp: files)
    from tp(1) have "fst tp < length ps" by (auto simp: in_set_enumerate_eq)
    with write_task_task [OF tp(2)] len show ?thesis by simp
  qed
  have per_value: "length [f \<leftarrow> files. partition_value f = v] \<le> 4" for v
  proof -
    have "length [f \<leftarrow> files. partition_value f = v] \<le> length (enumerate 0 ps)"
      unfolding files by (rule length_filter_concat_le) (use write_task_one_file_per_value in blast)
    with len show ?thesis by simp
  qed
  have klt: "k < length (schema mg)" using col_InrD(1) [OF k] .
  have rows_k: "\<forall>r \<in> set (concat ps). k < length r"
  proof
    fix r assume "r \<in> set (concat ps)"
    then have "r \<in> set (concat partitions)" by (simp add: ps_def concat_coalesce)
    then have "r \<in># mset (concat partitions)" by simp
    then have "r \<in> set (rows mg)" by (simp add: assms(2))
    with assms(3) klt show "k < length r" by (simp add: wf_df_iff)
  qed
  have "mset (concat (map (\<lambda>f. map (insert_at k (partition_value f)) (file_rows f)) files))
      = mset (concat (map (\<lambda>tp. concat (map (\<lambda>f. map (insert_at k (partition_value f)) (file_rows f))
                                         (write_task k (fst tp) (snd tp)))) (enumerate 0 ps)))"
    by (simp only: files concat_map_concat_map)
  also have "\<dots> = mset (concat (map snd (enumerate 0 ps)))"
  proof (rule mset_concat_map_cong, rule ballI)
    fix tp assume "tp \<in> set (enumerate 0 ps)"
    then have "fst tp < length ps" "ps ! fst tp = snd tp" by (auto simp: in_set_enumerate_eq)
    then have "snd tp \<in> set ps" by (metis nth_mem)
    with rows_k have "\<forall>r \<in> set (snd tp). k < length r" by auto
    then show "mset (concat (map (\<lambda>f. map (insert_at k (partition_value f)) (file_rows f))
                 (write_task k (fst tp) (snd tp)))) = mset (snd tp)"
      by (rule write_task_restored)
  qed
  also have "\<dots> = mset (concat partitions)"
    by (simp add: ps_def concat_coalesce)
  finally have "mset (concat (map (\<lambda>f. map (insert_at k (partition_value f)) (file_rows f)) files))
      = mset (rows mg)"
    by (simp add: assms(2))
  with k same tasks per_value show ?thesis by blast
qed

definition ex_partitions :: "val list list list" where
  "ex_partitions =
     [[[Str ''JFK'', Str ''LAX'', Num 12, Num 202001, Num 0, Null, Num 5, Ts 0, Num 3, Null]],
      [],
      [[Str ''LAX'', Str ''JFK'', Null, Num 202002, Num 5, Ts 0, Num 0, Null, Null, Null]],
      [],
      []]"

definition ex_existing :: "part_file list" where
  "ex_existing = [\<lparr>partition_value = Num 201912, task = 0, file_rows = [[Str ''SFO'']]\<rparr>]"

definition ex_files :: "part_file list" where
  "ex_files =
     [\<lparr>partition_value = Num 202001, task = 0,
       file_rows = [[Str ''JFK'', Str ''LAX'', Num 12, Num 0, Null, Num 5, Ts 0, Num 3, Null]]\<rparr>,
      \<lparr>partition_value = Num 202002, task = 2,
       file_rows = [[Str ''LAX'', Str ''JFK'', Null, Num 5, Ts 0, Num 0, Null, Null, Null]]\<rparr>]"

lemma ex_coalesce:
  "coalesce 4 ex_partitions =
     [[[Str ''JFK'', Str ''LAX'', Num 12, Num 202001, Num 0, Null, Num 5, Ts 0, Num 3, Null]],
      [],
      [[Str ''LAX'', Str ''JFK'', Null, Num 202002, Num 5, Ts 0, Num 0, Null, Null, Null]],
      []]"
  by (simp add: coalesce_def ex_partitions_def upt_rec [of 0] upt_rec [of "Suc _"]
      upt_rec [of "numeral _"])

lemma ex_writer: "writer ex_existing ex_out ex_partitions = Inr ex_files"
  by (simp add: writer_def write_parquet_def ex_coalesce ex_out_def ex_files_def write_task_def
      remove_at_def eval_defs cong: bindE_weak_cong)

lemma ex_out_wf: "wf_df ex_out"
  by (simp add: wf_df_def ex_out_def)

theorem writer_overwrites_by_yyyymm_witness:
  "writer ex_existing ex_out ex_partitions = Inr ex_files
   \<and> mset (concat ex_partitions) = mset (rows ex_out)
   \<and> col ex_out ''YYYYMM'' = Inr 3
   \<and> writer [] ex_out ex_partitions = Inr ex_files
   \<and> mset (concat (map (\<lambda>f. map (insert_at 3 (partition_value f)) (file_rows f)) ex_files))
       = mset (rows ex_out)"
proof -
  have p: "mset (concat ex_partitions) = mset (rows ex_out)"
    by (simp add: ex_partitions_def ex_out_def)
  have k: "col ex_out ''YYYYMM'' = Inr 3"
    by (simp add: eval_defs ex_out_def)
  from writer_overwrites_by_yyyymm [OF ex_writer p ex_out_wf] k p show ?thesis
    by (auto simp: ex_writer)
qed

end
